theory Spec2Isabelle
  imports Complex_Main "HOL-Library.Multiset" "HOL-Library.Stream" "HOL-Library.Word"
begin

section \<open>Packets and the stage interface (simulation\_module.h)\<close>

text \<open>
  A \<open>std::chrono::steady_clock::time_point\<close> is a count of clock ticks (nanoseconds);
  a \<open>std::chrono::milliseconds\<close> value added to it is converted to ticks.  Every
  call of \<open>steady_clock::now()\<close> in the source is an explicit argument \<open>now\<close> here.

  The \<open>uint32_t\<close> settings (copies, gap, jitter bounds, delay, kbps) and the
  \<open>size_t\<close> sizes are natural numbers: the source compares them, halves the gap and
  converts them to \<open>double\<close> or to milliseconds, and its one subtraction,
  \<open>size - gap / 2\<close>, runs only when \<open>size \<ge> gap\<close>; nothing can wrap.  The \<open>float\<close>
  rates are real numbers; they are only compared.
\<close>

type_synonym time_point = int

definition milliseconds :: "nat \<Rightarrow> int" where
  "milliseconds ms = int ms * 1000000"

text \<open>The fields of \<open>WINDIVERT_ADDRESS\<close> that the program reads.\<close>

record windivert_address =
  Outbound :: bool
  Loopback :: bool
  IfIdx :: "32 word"

record SimulatedPacket =
  data :: "8 word list"
  addr :: windivert_address
  timestamp :: time_point
  release_time :: time_point

text \<open>
  Every module carries the same three atomic flags, the same \<open>ShouldProcess\<close> member
  and the same setters; they are modelled once and each module record extends
  \<open>stage_flags\<close>.  The one exception is \<open>BandwidthModule::SetEnabled\<close>, which also
  seeds the token bucket (\<open>Bandwidth_SetEnabled\<close> below).
\<close>

record stage_flags =
  enabled :: bool
  inbound_enabled :: bool
  outbound_enabled :: bool

definition ShouldProcess :: "'a stage_flags_scheme \<Rightarrow> windivert_address \<Rightarrow> bool" where
  "ShouldProcess m a =
     (if Outbound a \<and> \<not> outbound_enabled m then False
      else if \<not> Outbound a \<and> \<not> inbound_enabled m then False
      else True)"

definition SetEnabled :: "bool \<Rightarrow> 'a stage_flags_scheme \<Rightarrow> 'a stage_flags_scheme" where
  "SetEnabled e m = m\<lparr>enabled := e\<rparr>"

definition SetInboundEnabled :: "bool \<Rightarrow> 'a stage_flags_scheme \<Rightarrow> 'a stage_flags_scheme" where
  "SetInboundEnabled e m = m\<lparr>inbound_enabled := e\<rparr>"

definition SetOutboundEnabled :: "bool \<Rightarrow> 'a stage_flags_scheme \<Rightarrow> 'a stage_flags_scheme" where
  "SetOutboundEnabled e m = m\<lparr>outbound_enabled := e\<rparr>"

text \<open>\<open>std::clamp(v, lo, hi)\<close>.\<close>

definition clamp :: "'a::linorder \<Rightarrow> 'a \<Rightarrow> 'a \<Rightarrow> 'a" where
  "clamp v lo hi = (if v < lo then lo else if hi < v then hi else v)"

section \<open>Random sources (random\_utils.h, JitterModule::rng\_)\<close>

text \<open>
  The three thread-local Mersenne twisters are modelled by the sequences of values they
  will produce: \<open>percentage\<close> holds the successive results of
  \<open>RandomUtils::GetPercentage\<close>, \<open>generator\<close> the raw outputs of the engine behind
  \<open>RandomUtils::GetGenerator\<close>, and \<open>jitter_rng\<close> those of \<open>JitterModule::rng_\<close>.
  Taking a sample advances the sequence, so an unchanged source means no sample was taken.
\<close>

record random_source =
  percentage :: "real stream"
  generator :: "nat stream"
  jitter_rng :: "nat stream"

definition GetPercentage :: "random_source \<Rightarrow> real \<times> random_source" where
  "GetPercentage r = (shd (percentage r), r\<lparr>percentage := stl (percentage r)\<rparr>)"

section \<open>Loss stage (packet\_loss\_module.cpp)\<close>

record PacketLossModule = stage_flags +
  loss_rate :: real

definition SetLossRate :: "real \<Rightarrow> PacketLossModule \<Rightarrow> PacketLossModule" where
  "SetLossRate loss_percentage m = m\<lparr>loss_rate := clamp loss_percentage 0 100\<rparr>"

definition ShouldDrop :: "PacketLossModule \<Rightarrow> random_source \<Rightarrow> bool \<times> random_source" where
  "ShouldDrop m r =
     (if loss_rate m \<le> 0 then (False, r)
      else if loss_rate m \<ge> 100 then (True, r)
      else (let (x, r') = GetPercentage r in (x < loss_rate m, r')))"

text \<open>The loop of \<open>PacketLossModule::ProcessBatch\<close>; \<open>&&\<close> short-circuits.\<close>

fun PacketLoss_loop ::
  "PacketLossModule \<Rightarrow> SimulatedPacket list \<Rightarrow> SimulatedPacket list \<Rightarrow> random_source
     \<Rightarrow> SimulatedPacket list \<times> random_source" where
  "PacketLoss_loop m [] surviving r = (surviving, r)"
| "PacketLoss_loop m (p # ps) surviving r =
     (if ShouldProcess m (addr p) then
        (let (dropped, r') = ShouldDrop m r in
         if dropped then PacketLoss_loop m ps surviving r'
         else PacketLoss_loop m ps (surviving @ [p]) r')
      else PacketLoss_loop m ps (surviving @ [p]) r)"

definition PacketLoss_ProcessBatch ::
  "PacketLossModule \<Rightarrow> SimulatedPacket list \<Rightarrow> random_source
     \<Rightarrow> SimulatedPacket list \<times> random_source" where
  "PacketLoss_ProcessBatch m packets r =
     (if \<not> enabled m then (packets, r) else PacketLoss_loop m packets [] r)"

section \<open>Duplicate stage (duplicate\_module.cpp)\<close>

record DuplicateModule = stage_flags +
  duplication_rate :: real
  duplicate_count :: nat

definition SetDuplicationRate :: "real \<Rightarrow> DuplicateModule \<Rightarrow> DuplicateModule" where
  "SetDuplicationRate duplication_percentage m =
     m\<lparr>duplication_rate := clamp duplication_percentage 0 100\<rparr>"

definition SetDuplicateCount :: "nat \<Rightarrow> DuplicateModule \<Rightarrow> DuplicateModule" where
  "SetDuplicateCount n m = m\<lparr>duplicate_count := clamp n 1 5\<rparr>"

definition ShouldDuplicate :: "DuplicateModule \<Rightarrow> random_source \<Rightarrow> bool \<times> random_source" where
  "ShouldDuplicate m r =
     (if duplication_rate m \<le> 0 then (False, r)
      else if duplication_rate m \<ge> 100 then (True, r)
      else (let (x, r') = GetPercentage r in (x < duplication_rate m, r')))"

text \<open>
  The inner loop \<open>for (i = 0; i < count; ++i)\<close>: each round copies
  \<open>output_packets.back()\<close> and pushes the copy.
\<close>

fun Duplicate_copies :: "nat \<Rightarrow> SimulatedPacket list \<Rightarrow> SimulatedPacket list" where
  "Duplicate_copies 0 output_packets = output_packets"
| "Duplicate_copies (Suc n) output_packets =
     Duplicate_copies n (output_packets @ [last output_packets])"

fun Duplicate_loop ::
  "DuplicateModule \<Rightarrow> SimulatedPacket list \<Rightarrow> SimulatedPacket list \<Rightarrow> random_source
     \<Rightarrow> SimulatedPacket list \<times> random_source" where
  "Duplicate_loop m [] output_packets r = (output_packets, r)"
| "Duplicate_loop m (p # ps) output_packets r =
     (let out1 = output_packets @ [p] in
      if ShouldProcess m (addr (last out1)) then
        (let (dup, r') = ShouldDuplicate m r in
         if dup then Duplicate_loop m ps (Duplicate_copies (duplicate_count m) out1) r'
         else Duplicate_loop m ps out1 r')
      else Duplicate_loop m ps out1 r)"

definition Duplicate_ProcessBatch ::
  "DuplicateModule \<Rightarrow> SimulatedPacket list \<Rightarrow> random_source
     \<Rightarrow> SimulatedPacket list \<times> random_source" where
  "Duplicate_ProcessBatch m packets r =
     (if \<not> enabled m then (packets, r) else Duplicate_loop m packets [] r)"

section \<open>Emptying a container\<close>

text \<open>
  The loop \<open>while (!c.empty()) { out.push_back(std::move(c.front())); c.pop(); }\<close>
  (\<open>top\<close> for a heap) that the reorder, jitter, latency and bandwidth stages run when
  they are disabled.  The container is the list of its elements in the order in which
  \<open>front\<close> or \<open>top\<close> returns them.
\<close>

fun release_all ::
  "SimulatedPacket list \<Rightarrow> SimulatedPacket list \<Rightarrow> SimulatedPacket list \<times> SimulatedPacket list" where
  "release_all [] ready_packets = (ready_packets, [])"
| "release_all (p # q) ready_packets = release_all q (ready_packets @ [p])"

section \<open>Reorder stage (out\_of\_order\_module.cpp)\<close>

record OutOfOrderModule = stage_flags +
  reorder_rate :: real
  reorder_gap :: nat
  packet_buffer :: "SimulatedPacket list"

definition SetReorderRate :: "real \<Rightarrow> OutOfOrderModule \<Rightarrow> OutOfOrderModule" where
  "SetReorderRate reorder_percentage m = m\<lparr>reorder_rate := clamp reorder_percentage 0 100\<rparr>"

definition SetReorderGap :: "nat \<Rightarrow> OutOfOrderModule \<Rightarrow> OutOfOrderModule" where
  "SetReorderGap gap m = m\<lparr>reorder_gap := clamp gap 2 10\<rparr>"

definition ShouldReorder :: "OutOfOrderModule \<Rightarrow> random_source \<Rightarrow> bool \<times> random_source" where
  "ShouldReorder m r =
     (if reorder_rate m \<le> 0 then (False, r)
      else if reorder_rate m \<ge> 100 then (True, r)
      else (let (x, r') = GetPercentage r in (x < reorder_rate m, r')))"

text \<open>
  Modelled from the spec: \<open>std::shuffle\<close> belongs to the C++ library and is not in the
  repository's sources.  The specification calls it an in-place Fisher-Yates shuffle
  giving a uniform random permutation: position \<open>i\<close> is exchanged with a position drawn
  from \<open>0..i\<close>, one engine output per position.  The statements below use only that the
  result is a permutation of the buffer.
\<close>

definition swap_at :: "nat \<Rightarrow> nat \<Rightarrow> 'a list \<Rightarrow> 'a list" where
  "swap_at i j xs = xs[i := xs ! j, j := xs ! i]"

definition std_shuffle :: "'a list \<Rightarrow> nat stream \<Rightarrow> 'a list \<times> nat stream" where
  "std_shuffle xs g =
     fold (\<lambda>i (ys, h). (swap_at i (shd h mod Suc i) ys, stl h)) [1..<length xs] (xs, g)"

definition ShuffleBuffer ::
  "OutOfOrderModule \<Rightarrow> random_source \<Rightarrow> OutOfOrderModule \<times> random_source" where
  "ShuffleBuffer m r =
     (if length (packet_buffer m) \<le> 1 then (m, r)
      else (let (temp, g) = std_shuffle (packet_buffer m) (generator r)
            in (m\<lparr>packet_buffer := temp\<rparr>, r\<lparr>generator := g\<rparr>)))"

text \<open>The first loop of \<open>OutOfOrderModule::ProcessBatch\<close>: both branches of the
  direction gate push the packet onto the buffer.\<close>

fun OutOfOrder_append ::
  "OutOfOrderModule \<Rightarrow> SimulatedPacket list \<Rightarrow> SimulatedPacket list \<Rightarrow> SimulatedPacket list" where
  "OutOfOrder_append m [] buffer = buffer"
| "OutOfOrder_append m (p # ps) buffer =
     (if ShouldProcess m (addr p) then OutOfOrder_append m ps (buffer @ [p])
      else OutOfOrder_append m ps (buffer @ [p]))"

text \<open>The second loop: \<open>for (i = 0; i < release_count && !packet_buffer_.empty(); ++i)\<close>.\<close>

fun OutOfOrder_release ::
  "nat \<Rightarrow> SimulatedPacket list \<Rightarrow> SimulatedPacket list
     \<Rightarrow> SimulatedPacket list \<times> SimulatedPacket list" where
  "OutOfOrder_release 0 buffer output_packets = (output_packets, buffer)"
| "OutOfOrder_release (Suc n) [] output_packets = (output_packets, [])"
| "OutOfOrder_release (Suc n) (p # buffer) output_packets =
     OutOfOrder_release n buffer (output_packets @ [p])"

definition OutOfOrder_ProcessBatch ::
  "OutOfOrderModule \<Rightarrow> SimulatedPacket list \<Rightarrow> random_source
     \<Rightarrow> SimulatedPacket list \<times> OutOfOrderModule \<times> random_source" where
  "OutOfOrder_ProcessBatch m packets r =
     (if \<not> enabled m then (packets, m, r)
      else
        (let m1 = m\<lparr>packet_buffer := OutOfOrder_append m packets (packet_buffer m)\<rparr>;
             gap = reorder_gap m1
         in if length (packet_buffer m1) \<ge> gap then
              (let release_count = length (packet_buffer m1) - gap div 2;
                   (reorder, r1) = ShouldReorder m1 r;
                   (m2, r2) = (if reorder then ShuffleBuffer m1 r1 else (m1, r1));
                   (output_packets, rest) = OutOfOrder_release release_count (packet_buffer m2) []
               in (output_packets, m2\<lparr>packet_buffer := rest\<rparr>, r2))
            else ([], m1, r)))"

definition OutOfOrder_GetReleasablePackets ::
  "OutOfOrderModule \<Rightarrow> SimulatedPacket list \<times> OutOfOrderModule" where
  "OutOfOrder_GetReleasablePackets m =
     (if \<not> enabled m then
        (let (remaining, rest) = release_all (packet_buffer m) []
         in (remaining, m\<lparr>packet_buffer := rest\<rparr>))
      else ([], m))"

section \<open>Delayed-packet queues (jitter\_module.h, latency\_module.h)\<close>

text \<open>
  \<open>std::priority_queue\<close> with the comparator \<open>a.release_time > b.release_time\<close> is a
  min-heap on \<open>release_time\<close>.  It is modelled by the list of its elements in ascending
  order of \<open>release_time\<close>: \<open>top\<close> is the head, \<open>pop\<close> removes it, \<open>push\<close> inserts in
  order.  The order in which the library returns elements of equal \<open>release_time\<close> is
  not determined by the source; the model returns the most recently pushed one first.
\<close>

definition pq_push :: "SimulatedPacket \<Rightarrow> SimulatedPacket list \<Rightarrow> SimulatedPacket list" where
  "pq_push p q = insort_key release_time p q"

text \<open>\<open>while (!q.empty() && q.top().release_time <= current_time) { push_back(top); pop }\<close>\<close>

fun release_due ::
  "time_point \<Rightarrow> SimulatedPacket list \<Rightarrow> SimulatedPacket list
     \<Rightarrow> SimulatedPacket list \<times> SimulatedPacket list" where
  "release_due now [] ready_packets = (ready_packets, [])"
| "release_due now (p # q) ready_packets =
     (if release_time p \<le> now then release_due now q (ready_packets @ [p])
      else (ready_packets, p # q))"

section \<open>Jitter stage (jitter\_module.cpp)\<close>

record JitterModule = stage_flags +
  min_jitter_ms :: nat
  max_jitter_ms :: nat
  jitter_delayed_packets :: "SimulatedPacket list"

definition SetJitterRange :: "nat \<Rightarrow> nat \<Rightarrow> JitterModule \<Rightarrow> JitterModule" where
  "SetJitterRange min_ms max_ms m =
     m\<lparr>min_jitter_ms := min min_ms max_ms, max_jitter_ms := max min_ms max_ms\<rparr>"

text \<open>
  Modelled from the spec: \<open>std::uniform_int_distribution<uint32_t>(min_ms, max_ms)\<close> is a
  library class and is not in the repository's sources.  Its draw, a value in
  \<open>[min_ms, max_ms]\<close>, is \<open>min_ms\<close> plus an engine output reduced to the width of the
  range.
\<close>

definition GenerateJitter :: "JitterModule \<Rightarrow> random_source \<Rightarrow> nat \<times> random_source" where
  "GenerateJitter m r =
     (if min_jitter_ms m = max_jitter_ms m then (min_jitter_ms m, r)
      else (min_jitter_ms m + shd (jitter_rng r) mod (max_jitter_ms m - min_jitter_ms m + 1),
            r\<lparr>jitter_rng := stl (jitter_rng r)\<rparr>))"

fun Jitter_loop ::
  "time_point \<Rightarrow> JitterModule \<Rightarrow> SimulatedPacket list \<Rightarrow> SimulatedPacket list \<Rightarrow> random_source
     \<Rightarrow> SimulatedPacket list \<times> JitterModule \<times> random_source" where
  "Jitter_loop current_time m [] immediate_packets r = (immediate_packets, m, r)"
| "Jitter_loop current_time m (p # ps) immediate_packets r =
     (if ShouldProcess m (addr p) then
        (let (jitter_ms, r') = GenerateJitter m r;
             p' = p\<lparr>release_time := current_time + milliseconds jitter_ms\<rparr>
         in Jitter_loop current_time
              (m\<lparr>jitter_delayed_packets := pq_push p' (jitter_delayed_packets m)\<rparr>)
              ps immediate_packets r')
      else Jitter_loop current_time m ps (immediate_packets @ [p]) r)"

definition Jitter_ProcessBatch ::
  "time_point \<Rightarrow> JitterModule \<Rightarrow> SimulatedPacket list \<Rightarrow> random_source
     \<Rightarrow> SimulatedPacket list \<times> JitterModule \<times> random_source" where
  "Jitter_ProcessBatch now m packets r =
     (if \<not> enabled m then (packets, m, r) else Jitter_loop now m packets [] r)"

definition Jitter_GetReleasablePackets ::
  "time_point \<Rightarrow> JitterModule \<Rightarrow> SimulatedPacket list \<times> JitterModule" where
  "Jitter_GetReleasablePackets now m =
     (if \<not> enabled m then
        (let (ready_packets, rest) = release_all (jitter_delayed_packets m) []
         in (ready_packets, m\<lparr>jitter_delayed_packets := rest\<rparr>))
      else
        (let (ready_packets, rest) = release_due now (jitter_delayed_packets m) []
         in (ready_packets, m\<lparr>jitter_delayed_packets := rest\<rparr>)))"

section \<open>Latency stage (latency\_module.cpp)\<close>

record LatencyModule = stage_flags +
  latency :: nat
  delayed_packets :: "SimulatedPacket list"

definition SetLatency :: "nat \<Rightarrow> LatencyModule \<Rightarrow> LatencyModule" where
  "SetLatency latency_ms m = m\<lparr>latency := latency_ms\<rparr>"

fun Latency_loop ::
  "time_point \<Rightarrow> LatencyModule \<Rightarrow> SimulatedPacket list \<Rightarrow> SimulatedPacket list
     \<Rightarrow> SimulatedPacket list \<times> LatencyModule" where
  "Latency_loop current_time m [] immediate_packets = (immediate_packets, m)"
| "Latency_loop current_time m (p # ps) immediate_packets =
     (if ShouldProcess m (addr p) then
        (let p' = p\<lparr>release_time := current_time + milliseconds (latency m)\<rparr>
         in Latency_loop current_time (m\<lparr>delayed_packets := pq_push p' (delayed_packets m)\<rparr>)
              ps immediate_packets)
      else Latency_loop current_time m ps (immediate_packets @ [p]))"

definition Latency_ProcessBatch ::
  "time_point \<Rightarrow> LatencyModule \<Rightarrow> SimulatedPacket list
     \<Rightarrow> SimulatedPacket list \<times> LatencyModule" where
  "Latency_ProcessBatch now m packets =
     (if \<not> enabled m then (packets, m) else Latency_loop now m packets [])"

definition Latency_GetReleasablePackets ::
  "time_point \<Rightarrow> LatencyModule \<Rightarrow> SimulatedPacket list \<times> LatencyModule" where
  "Latency_GetReleasablePackets now m =
     (if \<not> enabled m then
        (let (ready_packets, rest) = release_all (delayed_packets m) []
         in (ready_packets, m\<lparr>delayed_packets := rest\<rparr>))
      else
        (let (ready_packets, rest) = release_due now (delayed_packets m) []
         in (ready_packets, m\<lparr>delayed_packets := rest\<rparr>)))"

section \<open>Bandwidth stage (bandwidth\_module.cpp)\<close>

text \<open>
  \<open>available_bytes_\<close> and \<open>max_burst_bytes_\<close> are C++ \<open>double\<close>s.  They are modelled
  by exact real numbers: the token arithmetic below is the arithmetic the source
  writes, without the rounding of the machine format.  A token count computed here is
  the exact value; the machine's value can differ from it by rounding, and with it the
  moment at which a packet is covered.
\<close>

record BandwidthModule = stage_flags +
  bandwidth_kbps :: nat
  last_refill_time :: time_point
  available_bytes :: real
  max_burst_bytes :: real
  packet_queue :: "SimulatedPacket list"

text \<open>The constructor and the default member initialisers of bandwidth\_module.h.\<close>

definition BandwidthModule_new :: "time_point \<Rightarrow> BandwidthModule" where
  "BandwidthModule_new now =
     \<lparr>enabled = False, inbound_enabled = True, outbound_enabled = True,
      bandwidth_kbps = 1000, last_refill_time = now, available_bytes = 0,
      max_burst_bytes = 125000, packet_queue = []\<rparr>"

definition SetBandwidthLimit :: "nat \<Rightarrow> BandwidthModule \<Rightarrow> BandwidthModule" where
  "SetBandwidthLimit kbps m =
     m\<lparr>bandwidth_kbps := kbps, max_burst_bytes := (real kbps * 1000) / 8\<rparr>"

definition Bandwidth_SetEnabled :: "bool \<Rightarrow> time_point \<Rightarrow> BandwidthModule \<Rightarrow> BandwidthModule" where
  "Bandwidth_SetEnabled e now m =
     (let m1 = m\<lparr>enabled := e\<rparr>
      in if e then m1\<lparr>last_refill_time := now, available_bytes := max_burst_bytes m1 / 2\<rparr>
         else m1)"

definition RefillTokenBucket :: "time_point \<Rightarrow> BandwidthModule \<Rightarrow> BandwidthModule" where
  "RefillTokenBucket current_time m =
     (let elapsed = current_time - last_refill_time m;
          elapsed_seconds = real_of_int elapsed / 1000000000;
          bytes_per_second = (real (bandwidth_kbps m) * 1000) / 8;
          bytes_to_add = bytes_per_second * elapsed_seconds
      in m\<lparr>available_bytes := min (available_bytes m + bytes_to_add) (max_burst_bytes m),
           last_refill_time := current_time\<rparr>)"

text \<open>\<open>ConsumeTokens\<close> on the token count: the answer and the count afterwards.\<close>

definition ConsumeTokens :: "nat \<Rightarrow> real \<Rightarrow> bool \<times> real" where
  "ConsumeTokens bytes available =
     (if available \<ge> real bytes then (True, available - real bytes) else (False, available))"

text \<open>The first loop of \<open>BandwidthModule::ProcessBatch\<close>: queue or pass.\<close>

fun Bandwidth_enqueue ::
  "BandwidthModule \<Rightarrow> SimulatedPacket list \<Rightarrow> SimulatedPacket list \<Rightarrow> SimulatedPacket list
     \<Rightarrow> SimulatedPacket list \<times> SimulatedPacket list" where
  "Bandwidth_enqueue m [] queue output_packets = (queue, output_packets)"
| "Bandwidth_enqueue m (p # ps) queue output_packets =
     (if ShouldProcess m (addr p) then Bandwidth_enqueue m ps (queue @ [p]) output_packets
      else Bandwidth_enqueue m ps queue (output_packets @ [p]))"

text \<open>The head-drain loop shared by \<open>ProcessBatch\<close> and \<open>GetReleasablePackets\<close>:
  it stops at the first packet the tokens do not cover.\<close>

fun Bandwidth_drain ::
  "real \<Rightarrow> SimulatedPacket list \<Rightarrow> SimulatedPacket list
     \<Rightarrow> SimulatedPacket list \<times> SimulatedPacket list \<times> real" where
  "Bandwidth_drain available [] output_packets = (output_packets, [], available)"
| "Bandwidth_drain available (p # queue) output_packets =
     (let (ok, available') = ConsumeTokens (length (data p)) available
      in if ok then Bandwidth_drain available' queue (output_packets @ [p])
         else (output_packets, p # queue, available))"

definition Bandwidth_ProcessBatch ::
  "time_point \<Rightarrow> BandwidthModule \<Rightarrow> SimulatedPacket list
     \<Rightarrow> SimulatedPacket list \<times> BandwidthModule" where
  "Bandwidth_ProcessBatch now m packets =
     (if \<not> enabled m then (packets, m)
      else
        (let m1 = RefillTokenBucket now m;
             (queue, passed) = Bandwidth_enqueue m1 packets (packet_queue m1) [];
             (output_packets, rest, available) = Bandwidth_drain (available_bytes m1) queue passed
         in (output_packets, m1\<lparr>packet_queue := rest, available_bytes := available\<rparr>)))"

definition Bandwidth_GetReleasablePackets ::
  "time_point \<Rightarrow> BandwidthModule \<Rightarrow> SimulatedPacket list \<times> BandwidthModule" where
  "Bandwidth_GetReleasablePackets now m =
     (if \<not> enabled m then
        (let (remaining, rest) = release_all (packet_queue m) []
         in (remaining, m\<lparr>packet_queue := rest\<rparr>))
      else
        (let m1 = RefillTokenBucket now m;
             (output_packets, rest, available) =
                Bandwidth_drain (available_bytes m1) (packet_queue m1) []
         in (output_packets, m1\<lparr>packet_queue := rest, available_bytes := available\<rparr>)))"

section \<open>The dispatcher (network\_capture.cpp)\<close>

text \<open>
  The part of \<open>NetworkCapture\<close> that the pipeline and \<open>Stop\<close> touch: the six modules
  and the two flags.  The diverter handle, the worker threads and the counters are
  outside this model.
\<close>

record NetworkCapture =
  packet_loss_module :: PacketLossModule
  duplicate_module :: DuplicateModule
  out_of_order_module :: OutOfOrderModule
  jitter_module :: JitterModule
  bandwidth_module :: BandwidthModule
  latency_module :: LatencyModule
  is_capturing :: bool
  should_stop :: bool

text \<open>The clock readings taken while one batch passes the time-based stages.\<close>

record clock_readings =
  jitter_now :: time_point
  bandwidth_now :: time_point
  latency_now :: time_point

text \<open>
  \<open>CaptureThreadBatch\<close>, the block ``Apply simulation effects in order'': six guarded
  assignments \<open>if (module->IsEnabled()) sim_packets = module->ProcessBatch(...)\<close>.
\<close>

definition ApplySimulationEffects ::
  "clock_readings \<Rightarrow> SimulatedPacket list \<times> NetworkCapture \<times> random_source
     \<Rightarrow> SimulatedPacket list \<times> NetworkCapture \<times> random_source" where
  "ApplySimulationEffects clk x =
     (let (sim0, c0, r0) = x;
          (sim1, r1) =
             (if enabled (packet_loss_module c0)
              then PacketLoss_ProcessBatch (packet_loss_module c0) sim0 r0 else (sim0, r0));
          (sim2, r2) =
             (if enabled (duplicate_module c0)
              then Duplicate_ProcessBatch (duplicate_module c0) sim1 r1 else (sim1, r1));
          (sim3, ooo, r3) =
             (if enabled (out_of_order_module c0)
              then OutOfOrder_ProcessBatch (out_of_order_module c0) sim2 r2
              else (sim2, out_of_order_module c0, r2));
          (sim4, jit, r4) =
             (if enabled (jitter_module c0)
              then Jitter_ProcessBatch (jitter_now clk) (jitter_module c0) sim3 r3
              else (sim3, jitter_module c0, r3));
          (sim5, bw) =
             (if enabled (bandwidth_module c0)
              then Bandwidth_ProcessBatch (bandwidth_now clk) (bandwidth_module c0) sim4
              else (sim4, bandwidth_module c0));
          (sim6, lat) =
             (if enabled (latency_module c0)
              then Latency_ProcessBatch (latency_now clk) (latency_module c0) sim5
              else (sim5, latency_module c0))
      in (sim6,
          c0\<lparr>out_of_order_module := ooo, jitter_module := jit,
             bandwidth_module := bw, latency_module := lat\<rparr>,
          r4))"

text \<open>
  \<open>NetworkCapture::Stop\<close> after its threads are joined: the four final calls of
  \<open>GetReleasablePackets\<close>, whose results are discarded, and the flags.
\<close>

definition Stop :: "clock_readings \<Rightarrow> NetworkCapture \<Rightarrow> NetworkCapture" where
  "Stop clk c =
     (if \<not> is_capturing c then c
      else
        (let c1 = c\<lparr>should_stop := True\<rparr>;
             (remaining_latency, lat) =
                Latency_GetReleasablePackets (latency_now clk) (latency_module c1);
             (remaining_jitter, jit) =
                Jitter_GetReleasablePackets (jitter_now clk) (jitter_module c1);
             (remaining_bandwidth, bw) =
                Bandwidth_GetReleasablePackets (bandwidth_now clk) (bandwidth_module c1);
             (remaining_order, ooo) = OutOfOrder_GetReleasablePackets (out_of_order_module c1)
         in c1\<lparr>latency_module := lat, jitter_module := jit, bandwidth_module := bw,
               out_of_order_module := ooo, is_capturing := False\<rparr>))"

section \<open>Initial states (the constructors and default member initialisers)\<close>

definition PacketLossModule_new :: PacketLossModule where
  "PacketLossModule_new =
     \<lparr>enabled = False, inbound_enabled = True, outbound_enabled = True, loss_rate = 0\<rparr>"

definition DuplicateModule_new :: DuplicateModule where
  "DuplicateModule_new =
     \<lparr>enabled = False, inbound_enabled = True, outbound_enabled = True,
      duplication_rate = 0, duplicate_count = 1\<rparr>"

definition OutOfOrderModule_new :: OutOfOrderModule where
  "OutOfOrderModule_new =
     \<lparr>enabled = False, inbound_enabled = True, outbound_enabled = True,
      reorder_rate = 0, reorder_gap = 3, packet_buffer = []\<rparr>"

definition JitterModule_new :: JitterModule where
  "JitterModule_new =
     \<lparr>enabled = False, inbound_enabled = True, outbound_enabled = True,
      min_jitter_ms = 0, max_jitter_ms = 50, jitter_delayed_packets = []\<rparr>"

definition LatencyModule_new :: LatencyModule where
  "LatencyModule_new =
     \<lparr>enabled = False, inbound_enabled = True, outbound_enabled = True,
      latency = 0, delayed_packets = []\<rparr>"

definition NetworkCapture_new :: "time_point \<Rightarrow> NetworkCapture" where
  "NetworkCapture_new now =
     \<lparr>packet_loss_module = PacketLossModule_new, duplicate_module = DuplicateModule_new,
      out_of_order_module = OutOfOrderModule_new, jitter_module = JitterModule_new,
      bandwidth_module = BandwidthModule_new now, latency_module = LatencyModule_new,
      is_capturing = False, should_stop = False\<rparr>"

section \<open>The canonical order as the specification words it\<close>

text \<open>
  The specification's pipeline: the batch is stepped through the stages in the order
  loss, duplicate, reorder, jitter, bandwidth, latency; an enabled stage applies its
  \<open>process_batch\<close>, a disabled stage is skipped.  This definition follows the
  specification's words and is compared with \<open>ApplySimulationEffects\<close> below.
\<close>

datatype stage = Loss | Duplicate | Reorder | Jitter | Bandwidth | Latency

definition canonical_order :: "stage list" where
  "canonical_order = [Loss, Duplicate, Reorder, Jitter, Bandwidth, Latency]"

fun stage_enabled :: "stage \<Rightarrow> NetworkCapture \<Rightarrow> bool" where
  "stage_enabled Loss c = enabled (packet_loss_module c)"
| "stage_enabled Duplicate c = enabled (duplicate_module c)"
| "stage_enabled Reorder c = enabled (out_of_order_module c)"
| "stage_enabled Jitter c = enabled (jitter_module c)"
| "stage_enabled Bandwidth c = enabled (bandwidth_module c)"
| "stage_enabled Latency c = enabled (latency_module c)"

fun stage_process_batch ::
  "clock_readings \<Rightarrow> stage \<Rightarrow> SimulatedPacket list \<times> NetworkCapture \<times> random_source
     \<Rightarrow> SimulatedPacket list \<times> NetworkCapture \<times> random_source" where
  "stage_process_batch clk Loss (sim, c, r) =
     (let (out, r') = PacketLoss_ProcessBatch (packet_loss_module c) sim r in (out, c, r'))"
| "stage_process_batch clk Duplicate (sim, c, r) =
     (let (out, r') = Duplicate_ProcessBatch (duplicate_module c) sim r in (out, c, r'))"
| "stage_process_batch clk Reorder (sim, c, r) =
     (let (out, m, r') = OutOfOrder_ProcessBatch (out_of_order_module c) sim r
      in (out, c\<lparr>out_of_order_module := m\<rparr>, r'))"
| "stage_process_batch clk Jitter (sim, c, r) =
     (let (out, m, r') = Jitter_ProcessBatch (jitter_now clk) (jitter_module c) sim r
      in (out, c\<lparr>jitter_module := m\<rparr>, r'))"
| "stage_process_batch clk Bandwidth (sim, c, r) =
     (let (out, m) = Bandwidth_ProcessBatch (bandwidth_now clk) (bandwidth_module c) sim
      in (out, c\<lparr>bandwidth_module := m\<rparr>, r))"
| "stage_process_batch clk Latency (sim, c, r) =
     (let (out, m) = Latency_ProcessBatch (latency_now clk) (latency_module c) sim
      in (out, c\<lparr>latency_module := m\<rparr>, r))"

definition pipeline_step ::
  "clock_readings \<Rightarrow> stage \<Rightarrow> SimulatedPacket list \<times> NetworkCapture \<times> random_source
     \<Rightarrow> SimulatedPacket list \<times> NetworkCapture \<times> random_source" where
  "pipeline_step clk s x = (if stage_enabled s (fst (snd x)) then stage_process_batch clk s x else x)"

definition canonical_pipeline ::
  "clock_readings \<Rightarrow> SimulatedPacket list \<times> NetworkCapture \<times> random_source
     \<Rightarrow> SimulatedPacket list \<times> NetworkCapture \<times> random_source" where
  "canonical_pipeline clk x = fold (pipeline_step clk) canonical_order x"

section \<open>Runs of one stage\<close>

text \<open>
  \<open>BandwidthModule::ProcessBatch\<close> and \<open>GetReleasablePackets\<close> take \<open>bucket_mutex_\<close>
  before they touch the bucket or the queue and hold it until they return, and the
  clock is read inside the mutex, by \<open>RefillTokenBucket\<close>.  The calls on the bandwidth
  stage therefore form a sequence, each call is one step of it, and the clock values
  read along the sequence do not decrease.
\<close>

datatype stage_call =
  ProcessBatch_at time_point "SimulatedPacket list"
| GetReleasablePackets_at time_point

fun call_time :: "stage_call \<Rightarrow> time_point" where
  "call_time (ProcessBatch_at t packets) = t"
| "call_time (GetReleasablePackets_at t) = t"

text \<open>One call on the bandwidth stage, and the stage under a sequence of calls:
  everything the calls return, in order, and the final state.\<close>

fun Bandwidth_call ::
  "BandwidthModule \<Rightarrow> stage_call \<Rightarrow> SimulatedPacket list \<times> BandwidthModule" where
  "Bandwidth_call m (ProcessBatch_at t packets) = Bandwidth_ProcessBatch t m packets"
| "Bandwidth_call m (GetReleasablePackets_at t) = Bandwidth_GetReleasablePackets t m"

fun Bandwidth_run ::
  "BandwidthModule \<Rightarrow> stage_call list \<Rightarrow> SimulatedPacket list \<times> BandwidthModule" where
  "Bandwidth_run m [] = ([], m)"
| "Bandwidth_run m (c # cs) =
     (let (out, m1) = Bandwidth_call m c;
          (outs, m2) = Bandwidth_run m1 cs
      in (out @ outs, m2))"

text \<open>
  The latency stage holds its mutex for less.  \<open>LatencyModule::ProcessBatch\<close> reads the
  delay and the clock once, before its loop and outside \<open>buffer_mutex_\<close>, and then
  takes the mutex once for every packet that passes the gate, to push it.
  \<open>GetReleasablePackets\<close> reads the clock first and then takes the mutex once, for its
  pop loop.  With capture workers and the release worker running side by side, a run
  of the stage is the sequence of these locked sections in the order in which they
  take the mutex.  A section carries the clock value that its call read before, so the
  clock values along a run need not be in order: a release section can run between
  the clock reading of a \<open>ProcessBatch\<close> call and the push of one of its packets.
  The stage stays enabled and its delay stays as it is: a run has no setter calls.
\<close>

datatype latency_section =
  LockedPush time_point SimulatedPacket
| LockedRelease time_point

fun section_clock :: "latency_section \<Rightarrow> time_point" where
  "section_clock (LockedPush t p) = t"
| "section_clock (LockedRelease t) = t"

fun is_release :: "latency_section \<Rightarrow> bool" where
  "is_release (LockedPush t p) = False"
| "is_release (LockedRelease t) = True"

text \<open>\<open>LockedPush t p\<close>: the body of the loop of \<open>ProcessBatch\<close> for a packet that
  passes the gate, in a call that read the clock value \<open>t\<close>.  \<open>LockedRelease t\<close>: the
  locked loop of \<open>GetReleasablePackets\<close> in a call that read the clock value \<open>t\<close>.\<close>

fun Latency_section ::
  "LatencyModule \<Rightarrow> latency_section \<Rightarrow> SimulatedPacket list \<times> LatencyModule" where
  "Latency_section m (LockedPush t p) =
     ([], m\<lparr>delayed_packets :=
               pq_push (p\<lparr>release_time := t + milliseconds (latency m)\<rparr>)
                 (delayed_packets m)\<rparr>)"
| "Latency_section m (LockedRelease t) = Latency_GetReleasablePackets t m"

text \<open>A run of locked sections: what every release section returns, in order, and the
  final state.\<close>

fun Latency_sections ::
  "LatencyModule \<Rightarrow> latency_section list \<Rightarrow> SimulatedPacket list list \<times> LatencyModule" where
  "Latency_sections m [] = ([], m)"
| "Latency_sections m (LockedPush t p # cs) =
     Latency_sections (snd (Latency_section m (LockedPush t p))) cs"
| "Latency_sections m (LockedRelease t # cs) =
     (let (out, m1) = Latency_section m (LockedRelease t);
          (outs, m2) = Latency_sections m1 cs
      in (out # outs, m2))"

text \<open>The locked sections of one \<open>ProcessBatch\<close> call that read the clock value \<open>t\<close>:
  one push for every packet of the batch that passes the gate, in batch order.\<close>

definition ProcessBatch_sections ::
  "LatencyModule \<Rightarrow> time_point \<Rightarrow> SimulatedPacket list \<Rightarrow> latency_section list" where
  "ProcessBatch_sections m t packets =
     map (LockedPush t) (filter (\<lambda>p. ShouldProcess m (addr p)) packets)"

definition total_bytes :: "SimulatedPacket list \<Rightarrow> nat" where
  "total_bytes ps = sum_list (map (\<lambda>p. length (data p)) ps)"

text \<open>The packets offered by a sequence of calls that fail the stage's direction gate.\<close>

fun gate_failing :: "'a stage_flags_scheme \<Rightarrow> stage_call list \<Rightarrow> SimulatedPacket list" where
  "gate_failing m [] = []"
| "gate_failing m (ProcessBatch_at t packets # cs) =
     filter (\<lambda>p. \<not> ShouldProcess m (addr p)) packets @ gate_failing m cs"
| "gate_failing m (GetReleasablePackets_at t # cs) = gate_failing m cs"

section \<open>Predicates used in the statements\<close>

definition bucket_bounds :: "BandwidthModule \<Rightarrow> bool" where
  "bucket_bounds m = (0 \<le> available_bytes m \<and> available_bytes m \<le> max_burst_bytes m)"

definition burst_is_one_second :: "BandwidthModule \<Rightarrow> bool" where
  "burst_is_one_second m = (max_burst_bytes m = real (bandwidth_kbps m) * 125)"

text \<open>The token count after a refill at time \<open>t\<close> as the specification states it:
  \<open>min (available_bytes + kbps * 125 * \<Delta>t_seconds) max_burst_bytes\<close>.\<close>

definition refilled :: "time_point \<Rightarrow> BandwidthModule \<Rightarrow> real" where
  "refilled t m = min (available_bytes m +
       real (bandwidth_kbps m) * 125 * (real_of_int (t - last_refill_time m) / 1000000000))
     (max_burst_bytes m)"

definition queue_ordered :: "SimulatedPacket list \<Rightarrow> bool" where
  "queue_ordered q = sorted (map release_time q)"

definition buffers_empty :: "NetworkCapture \<Rightarrow> bool" where
  "buffers_empty c =
     (packet_buffer (out_of_order_module c) = [] \<and>
      jitter_delayed_packets (jitter_module c) = [] \<and>
      delayed_packets (latency_module c) = [] \<and>
      packet_queue (bandwidth_module c) = [])"

text \<open>A packet without its scheduling stamp: bytes, address record and capture time.\<close>

definition unscheduled :: "SimulatedPacket \<Rightarrow> SimulatedPacket" where
  "unscheduled p = p\<lparr>release_time := 0\<rparr>"

section \<open>Concrete inputs\<close>

definition test_packet :: "bool \<Rightarrow> nat \<Rightarrow> SimulatedPacket" where
  "test_packet outbound n =
     \<lparr>data = replicate n 0,
      addr = \<lparr>Outbound = outbound, Loopback = False, IfIdx = 1\<rparr>,
      timestamp = 0, release_time = 0\<rparr>"

definition fixed_source :: random_source where
  "fixed_source = \<lparr>percentage = sconst 50, generator = sconst 0, jitter_rng = sconst 0\<rparr>"

definition all_now :: "time_point \<Rightarrow> clock_readings" where
  "all_now t = \<lparr>jitter_now = t, bandwidth_now = t, latency_now = t\<rparr>"

section \<open>Loss stage: rate 0 and rate 100\<close>

lemma SetLossRate_clamped:
  "loss_rate (SetLossRate x m) = (if x < 0 then 0 else if 100 < x then 100 else x)"
  by (simp add: SetLossRate_def clamp_def)

lemma PacketLoss_loop_never:
  "loss_rate m \<le> 0 \<Longrightarrow> PacketLoss_loop m ps surviving r = (surviving @ ps, r)"
  by (induction ps arbitrary: surviving) (simp_all add: ShouldDrop_def)

lemma PacketLoss_loop_always:
  "loss_rate m \<ge> 100 \<Longrightarrow> \<forall>p\<in>set ps. ShouldProcess m (addr p)
     \<Longrightarrow> PacketLoss_loop m ps surviving r = (surviving, r)"
  by (induction ps arbitrary: surviving) (simp_all add: ShouldDrop_def)

text \<open>
  Claim C5.  For the enabled loss stage: when the stored rate is 0 (the setter clamps
  every request below 0 to 0), \<open>ProcessBatch\<close> returns its input, so the multiset of
  output packets equals the input multiset; when the stored rate is 100 and every
  packet of the batch passes the direction gate, \<open>ProcessBatch\<close> returns the empty
  sequence.  In both cases the random source is returned as it was: no sample is taken.
\<close>

theorem loss_rate_zero_keeps_rate_hundred_drops:
  assumes "enabled m"
  shows "(loss_rate m \<le> 0 \<longrightarrow>
            mset (fst (PacketLoss_ProcessBatch m packets r)) = mset packets \<and>
            PacketLoss_ProcessBatch m packets r = (packets, r)) \<and>
         (loss_rate m \<ge> 100 \<and> (\<forall>p\<in>set packets. ShouldProcess m (addr p)) \<longrightarrow>
            PacketLoss_ProcessBatch m packets r = ([], r))"
  using assms
  by (simp add: PacketLoss_ProcessBatch_def PacketLoss_loop_never PacketLoss_loop_always)

theorem loss_rate_zero_keeps_rate_hundred_drops_witness:
  "PacketLoss_ProcessBatch (SetLossRate 0 (SetEnabled True PacketLossModule_new))
      [test_packet True 3, test_packet False 2] fixed_source
     = ([test_packet True 3, test_packet False 2], fixed_source) \<and>
   PacketLoss_ProcessBatch (SetLossRate 100 (SetEnabled True PacketLossModule_new))
      [test_packet True 3, test_packet False 2] fixed_source
     = ([], fixed_source)"
proof -
  let ?m0 = "SetLossRate 0 (SetEnabled True PacketLossModule_new)"
  let ?m1 = "SetLossRate 100 (SetEnabled True PacketLossModule_new)"
  let ?ps = "[test_packet True 3, test_packet False 2]"
  have e0: "enabled ?m0" and e1: "enabled ?m1"
    by (simp_all add: SetLossRate_def SetEnabled_def PacketLossModule_new_def)
  have z: "loss_rate ?m0 \<le> 0"
    by (simp add: SetLossRate_def clamp_def)
  have h: "loss_rate ?m1 \<ge> 100 \<and> (\<forall>p\<in>set ?ps. ShouldProcess ?m1 (addr p))"
    by (simp add: SetLossRate_def clamp_def SetEnabled_def PacketLossModule_new_def
        ShouldProcess_def test_packet_def)
  from loss_rate_zero_keeps_rate_hundred_drops [OF e0, of ?ps fixed_source] z
  have a: "PacketLoss_ProcessBatch ?m0 ?ps fixed_source = (?ps, fixed_source)" by blast
  from loss_rate_zero_keeps_rate_hundred_drops [OF e1, of ?ps fixed_source] h
  have b: "PacketLoss_ProcessBatch ?m1 ?ps fixed_source = ([], fixed_source)" by blast
  from a b show ?thesis by simp
qed

section \<open>Duplicate stage: fan-out at rate 100\<close>

lemma Duplicate_copies_replicate:
  "output_packets \<noteq> [] \<Longrightarrow>
     Duplicate_copies n output_packets = output_packets @ replicate n (last output_packets)"
proof (induction n arbitrary: output_packets)
  case 0
  then show ?case by simp
next
  case (Suc n)
  then show ?case by (simp add: replicate_app_Cons_same)
qed

lemma Duplicate_loop_always:
  "duplication_rate m \<ge> 100 \<Longrightarrow> \<forall>p\<in>set ps. ShouldProcess m (addr p) \<Longrightarrow>
     Duplicate_loop m ps output_packets r =
       (output_packets @ concat (map (replicate (Suc (duplicate_count m))) ps), r)"
  by (induction ps arbitrary: output_packets)
     (simp_all add: ShouldDuplicate_def Duplicate_copies_replicate)

lemma SetDuplicateCount_clamped:
  "1 \<le> duplicate_count (SetDuplicateCount n m) \<and> duplicate_count (SetDuplicateCount n m) \<le> 5"
  by (simp add: SetDuplicateCount_def clamp_def)

text \<open>
  Claim C6.  For the enabled duplicate stage with rate 100 and \<open>duplicate_count = k\<close>:
  when every packet of a batch of \<open>n\<close> packets passes the direction gate, \<open>ProcessBatch\<close>
  returns, for each input packet in input order, that packet followed at once by \<open>k\<close>
  copies equal to it in every field; the output has \<open>(k + 1) * n\<close> packets.
\<close>

theorem duplicate_fan_out:
  assumes "enabled m" and "duplication_rate m \<ge> 100"
    and "\<forall>p\<in>set packets. ShouldProcess m (addr p)"
  shows "Duplicate_ProcessBatch m packets r =
           (concat (map (replicate (Suc (duplicate_count m))) packets), r) \<and>
         length (fst (Duplicate_ProcessBatch m packets r)) =
           (duplicate_count m + 1) * length packets"
proof -
  have eq: "Duplicate_ProcessBatch m packets r =
           (concat (map (replicate (Suc (duplicate_count m))) packets), r)"
    using assms by (simp add: Duplicate_ProcessBatch_def Duplicate_loop_always)
  have "length (concat (map (replicate (Suc (duplicate_count m))) packets)) =
          (duplicate_count m + 1) * length packets"
    by (induction packets) simp_all
  with eq show ?thesis by simp
qed

theorem duplicate_fan_out_witness:
  "Duplicate_ProcessBatch
      (SetDuplicateCount 2 (SetDuplicationRate 100 (SetEnabled True DuplicateModule_new)))
      [test_packet True 1, test_packet False 2] fixed_source
     = ([test_packet True 1, test_packet True 1, test_packet True 1,
         test_packet False 2, test_packet False 2, test_packet False 2], fixed_source)"
proof -
  let ?m = "SetDuplicateCount 2 (SetDuplicationRate 100 (SetEnabled True DuplicateModule_new))"
  let ?ps = "[test_packet True 1, test_packet False 2]"
  have e: "enabled ?m"
    by (simp add: SetDuplicateCount_def SetDuplicationRate_def SetEnabled_def
        DuplicateModule_new_def)
  have h: "duplication_rate ?m \<ge> 100"
    by (simp add: SetDuplicateCount_def SetDuplicationRate_def clamp_def)
  have g: "\<forall>p\<in>set ?ps. ShouldProcess ?m (addr p)"
    by (simp add: SetDuplicateCount_def SetDuplicationRate_def SetEnabled_def
        DuplicateModule_new_def ShouldProcess_def test_packet_def)
  have k: "duplicate_count ?m = 2"
    by (simp add: SetDuplicateCount_def clamp_def)
  have "Duplicate_ProcessBatch ?m ?ps fixed_source =
          (concat (map (replicate (Suc 2)) ?ps), fixed_source)"
    using duplicate_fan_out [OF e h g, of fixed_source] by (simp only: k)
  then show ?thesis
    by (simp add: numeral_2_eq_2)
qed

section \<open>Reorder stage: what a batch releases\<close>

lemma ShouldProcess_flags:
  "enabled m' = enabled m \<Longrightarrow> inbound_enabled m' = inbound_enabled m \<Longrightarrow>
   outbound_enabled m' = outbound_enabled m \<Longrightarrow> ShouldProcess m' a = ShouldProcess m a"
  by (simp add: ShouldProcess_def)

lemma OutOfOrder_append_eq: "OutOfOrder_append m ps buffer = buffer @ ps"
  by (induction ps arbitrary: buffer) simp_all

lemma OutOfOrder_release_eq:
  "OutOfOrder_release n buffer output_packets = (output_packets @ take n buffer, drop n buffer)"
  by (induction n buffer output_packets rule: OutOfOrder_release.induct) simp_all

lemma swap_at_mset:
  "i < length xs \<Longrightarrow> j < length xs \<Longrightarrow> mset (swap_at i j xs) = mset xs"
  unfolding swap_at_def by (rule mset_swap)

lemma swap_at_length: "length (swap_at i j xs) = length xs"
  by (simp add: swap_at_def)

lemma shuffle_fold_mset:
  "\<forall>i\<in>set is. i < length ys \<Longrightarrow>
     mset (fst (fold (\<lambda>i (ys, h). (swap_at i (shd h mod Suc i) ys, stl h)) is (ys, h))) = mset ys
   \<and> length (fst (fold (\<lambda>i (ys, h). (swap_at i (shd h mod Suc i) ys, stl h)) is (ys, h))) = length ys"
proof (induction "is" arbitrary: ys h)
  case Nil
  then show ?case by simp
next
  case (Cons i "is")
  have i: "i < length ys" using Cons.prems by simp
  have j: "shd h mod Suc i < length ys" using i
    by (meson le_less_trans less_Suc_eq_le mod_less_divisor zero_less_Suc)
  have "\<forall>k\<in>set is. k < length (swap_at i (shd h mod Suc i) ys)"
    using Cons.prems by (simp add: swap_at_length)
  from Cons.IH [OF this, of "stl h"] show ?case
    by (simp add: swap_at_mset [OF i j] swap_at_length)
qed

lemma std_shuffle_mset: "mset (fst (std_shuffle xs g)) = mset xs"
  unfolding std_shuffle_def by (rule conjunct1 [OF shuffle_fold_mset]) simp

lemma std_shuffle_length: "length (fst (std_shuffle xs g)) = length xs"
  unfolding std_shuffle_def by (rule conjunct2 [OF shuffle_fold_mset]) simp

lemma std_shuffle_short: "length xs \<le> 1 \<Longrightarrow> std_shuffle xs g = (xs, g)"
  by (simp add: std_shuffle_def)

lemma ShuffleBuffer_buffer:
  "packet_buffer (fst (ShuffleBuffer m r)) = fst (std_shuffle (packet_buffer m) (generator r))"
  by (simp add: ShuffleBuffer_def std_shuffle_short split_beta)

lemma ShouldReorder_buffer:
  "fst (ShouldReorder (m\<lparr>packet_buffer := b\<rparr>) r) = fst (ShouldReorder m r) \<and>
   snd (ShouldReorder (m\<lparr>packet_buffer := b\<rparr>) r) = snd (ShouldReorder m r)"
  by (simp add: ShouldReorder_def split_beta)

text \<open>
  Claim C7.  For the enabled reorder stage, let \<open>buf\<close> be the buffer after the incoming
  packets are appended and \<open>L\<close> its length.  If \<open>L\<close> is at least the gap, the call emits
  exactly the first \<open>L - gap div 2\<close> entries of the buffer -- of the shuffled buffer
  (a permutation of \<open>buf\<close>) when \<open>ShouldReorder\<close> succeeds, of \<open>buf\<close> itself otherwise --
  and retains the remaining entries; if \<open>L\<close> is below the gap it emits nothing and
  retains \<open>buf\<close>.
\<close>

theorem reorder_emits_leading_entries:
  assumes "enabled m"
  shows
    "(let buf = packet_buffer m @ packets;
          L = length buf;
          gap = reorder_gap m;
          (reorder, r1) = ShouldReorder m r;
          buf' = (if reorder then fst (std_shuffle buf (generator r1)) else buf);
          (out, m', r') = OutOfOrder_ProcessBatch m packets r
      in (gap \<le> L \<longrightarrow>
            out = take (L - gap div 2) buf' \<and> packet_buffer m' = drop (L - gap div 2) buf' \<and>
            length out = L - gap div 2 \<and> mset buf' = mset buf) \<and>
         (L < gap \<longrightarrow> out = [] \<and> packet_buffer m' = buf))"
  using assms
  by (simp add: OutOfOrder_ProcessBatch_def Let_def split_beta OutOfOrder_append_eq
      OutOfOrder_release_eq ShuffleBuffer_buffer ShouldReorder_buffer std_shuffle_mset
      std_shuffle_length)

theorem reorder_emits_leading_entries_witness:
  "fst (OutOfOrder_ProcessBatch (SetReorderGap 4 (SetEnabled True OutOfOrderModule_new))
      [test_packet True 1, test_packet True 2, test_packet False 3, test_packet True 4,
       test_packet True 5] fixed_source)
     = [test_packet True 1, test_packet True 2, test_packet False 3] \<and>
   packet_buffer (fst (snd (OutOfOrder_ProcessBatch
      (SetReorderGap 4 (SetEnabled True OutOfOrderModule_new))
      [test_packet True 1, test_packet True 2, test_packet False 3, test_packet True 4,
       test_packet True 5] fixed_source)))
     = [test_packet True 4, test_packet True 5] \<and>
   fst (OutOfOrder_ProcessBatch (SetReorderGap 4 (SetEnabled True OutOfOrderModule_new))
      [test_packet True 1, test_packet True 2, test_packet False 3] fixed_source) = []"
proof -
  let ?m = "SetReorderGap 4 (SetEnabled True OutOfOrderModule_new)"
  have e: "enabled ?m"
    by (simp add: SetReorderGap_def SetEnabled_def OutOfOrderModule_new_def)
  have v: "reorder_gap ?m = 4" "packet_buffer ?m = []" "reorder_rate ?m = 0"
    by (simp_all add: SetReorderGap_def SetEnabled_def OutOfOrderModule_new_def clamp_def)
  have s: "ShouldReorder ?m fixed_source = (False, fixed_source)"
    by (simp add: ShouldReorder_def v)
  show ?thesis
    using reorder_emits_leading_entries [OF e,
        of "[test_packet True 1, test_packet True 2, test_packet False 3, test_packet True 4,
       test_packet True 5]" fixed_source]
      reorder_emits_leading_entries [OF e,
        of "[test_packet True 1, test_packet True 2, test_packet False 3]" fixed_source]
    by (simp add: v s Let_def split_beta)
qed

text \<open>The shuffled case on a concrete buffer: with every engine output 0 the shuffle
  moves the last packet to the front, and three of the five packets are released.\<close>

lemma std_shuffle_example:
  "std_shuffle [a, b, c, d, e] (sconst 0) = ([e, a, b, c, d], sconst 0)"
  by (simp add: std_shuffle_def swap_at_def upt_rec)

lemma reorder_shuffled_example:
  "fst (OutOfOrder_ProcessBatch
      (SetReorderGap 4 (SetReorderRate 100 (SetEnabled True OutOfOrderModule_new)))
      [test_packet True 1, test_packet True 2, test_packet False 3, test_packet True 4,
       test_packet True 5] fixed_source)
     = [test_packet True 5, test_packet True 1, test_packet True 2]"
  by (simp add: OutOfOrder_ProcessBatch_def SetReorderGap_def SetReorderRate_def SetEnabled_def
      OutOfOrderModule_new_def clamp_def ShouldReorder_def ShuffleBuffer_def fixed_source_def
      std_shuffle_example Let_def)

section \<open>Conservation of packets\<close>

lemma release_all_eq: "release_all q ready = (ready @ q, [])"
  by (induction q arbitrary: ready) simp_all

lemma OutOfOrder_ProcessBatch_conserves:
  "mset (fst (OutOfOrder_ProcessBatch m packets r)) +
     mset (packet_buffer (fst (snd (OutOfOrder_ProcessBatch m packets r))))
   = mset packets + mset (packet_buffer m)"
proof -
  have td: "\<And>n (xs :: SimulatedPacket list). mset (take n xs) + mset (drop n xs) = mset xs"
    by (metis append_take_drop_id mset_append)
  show ?thesis
    by (simp add: OutOfOrder_ProcessBatch_def Let_def split_beta OutOfOrder_append_eq
      OutOfOrder_release_eq ShuffleBuffer_buffer ShouldReorder_buffer std_shuffle_mset td)
qed

lemma OutOfOrder_GetReleasablePackets_conserves:
  "mset (fst (OutOfOrder_GetReleasablePackets m)) +
     mset (packet_buffer (snd (OutOfOrder_GetReleasablePackets m)))
   = mset (packet_buffer m)"
  by (simp add: OutOfOrder_GetReleasablePackets_def release_all_eq)

lemma release_due_append:
  "fst (release_due now q ready) @ snd (release_due now q ready) = ready @ q"
  by (induction q arbitrary: ready) simp_all

lemma release_due_conserves:
  "mset (fst (release_due now q ready)) + mset (snd (release_due now q ready))
     = mset ready + mset q"
  by (metis mset_append release_due_append)

lemma unscheduled_stamp: "unscheduled (p\<lparr>release_time := t\<rparr>) = unscheduled p"
  by (simp add: unscheduled_def)

lemma Jitter_loop_conserves:
  "image_mset unscheduled
     (mset (fst (Jitter_loop now m ps imm r)) +
      mset (jitter_delayed_packets (fst (snd (Jitter_loop now m ps imm r)))))
   = image_mset unscheduled (mset ps + mset imm + mset (jitter_delayed_packets m))"
  by (induction ps arbitrary: m imm r)
     (simp_all add: split_beta Let_def pq_push_def unscheduled_stamp)

lemma Jitter_ProcessBatch_conserves:
  "image_mset unscheduled
     (mset (fst (Jitter_ProcessBatch now m packets r)) +
      mset (jitter_delayed_packets (fst (snd (Jitter_ProcessBatch now m packets r)))))
   = image_mset unscheduled (mset packets + mset (jitter_delayed_packets m))"
  using Jitter_loop_conserves [of now m packets "[]" r]
  by (simp add: Jitter_ProcessBatch_def)

lemma Jitter_GetReleasablePackets_conserves:
  "mset (fst (Jitter_GetReleasablePackets now m)) +
     mset (jitter_delayed_packets (snd (Jitter_GetReleasablePackets now m)))
   = mset (jitter_delayed_packets m)"
  using release_due_conserves [of now "jitter_delayed_packets m" "[]"]
  by (simp add: Jitter_GetReleasablePackets_def release_all_eq split_beta)

lemma Latency_loop_conserves:
  "image_mset unscheduled
     (mset (fst (Latency_loop now m ps imm)) +
      mset (delayed_packets (snd (Latency_loop now m ps imm))))
   = image_mset unscheduled (mset ps + mset imm + mset (delayed_packets m))"
  by (induction ps arbitrary: m imm)
     (simp_all add: split_beta Let_def pq_push_def unscheduled_stamp)

lemma Latency_ProcessBatch_conserves:
  "image_mset unscheduled
     (mset (fst (Latency_ProcessBatch now m packets)) +
      mset (delayed_packets (snd (Latency_ProcessBatch now m packets))))
   = image_mset unscheduled (mset packets + mset (delayed_packets m))"
  using Latency_loop_conserves [of now m packets "[]"]
  by (simp add: Latency_ProcessBatch_def)

lemma Latency_GetReleasablePackets_conserves:
  "mset (fst (Latency_GetReleasablePackets now m)) +
     mset (delayed_packets (snd (Latency_GetReleasablePackets now m)))
   = mset (delayed_packets m)"
  using release_due_conserves [of now "delayed_packets m" "[]"]
  by (simp add: Latency_GetReleasablePackets_def release_all_eq split_beta)

lemma Bandwidth_enqueue_eq:
  "Bandwidth_enqueue m ps queue output_packets =
     (queue @ filter (\<lambda>p. ShouldProcess m (addr p)) ps,
      output_packets @ filter (\<lambda>p. \<not> ShouldProcess m (addr p)) ps)"
  by (induction ps arbitrary: queue output_packets) simp_all

lemma Bandwidth_drain_append:
  "fst (Bandwidth_drain a q out) @ fst (snd (Bandwidth_drain a q out)) = out @ q"
  by (induction q arbitrary: a out) (simp_all add: split_beta ConsumeTokens_def)

lemma Bandwidth_drain_conserves:
  "mset (fst (Bandwidth_drain a q out)) + mset (fst (snd (Bandwidth_drain a q out)))
     = mset out + mset q"
  by (metis mset_append Bandwidth_drain_append)

lemma filter_gate_mset:
  "mset (filter (\<lambda>p. \<not> ShouldProcess m (addr p)) ps) +
   mset (filter (\<lambda>p. ShouldProcess m (addr p)) ps) = mset ps"
  by (induction ps) simp_all

lemma Bandwidth_ProcessBatch_conserves:
  "mset (fst (Bandwidth_ProcessBatch now m packets)) +
     mset (packet_queue (snd (Bandwidth_ProcessBatch now m packets)))
   = mset packets + mset (packet_queue m)"
proof (cases "enabled m")
  case False
  then show ?thesis by (simp add: Bandwidth_ProcessBatch_def)
next
  case True
  let ?m1 = "RefillTokenBucket now m"
  have q: "packet_queue ?m1 = packet_queue m"
    by (simp add: RefillTokenBucket_def Let_def)
  have g: "\<And>a. ShouldProcess ?m1 a = ShouldProcess m a"
    by (simp add: RefillTokenBucket_def Let_def ShouldProcess_def)
  from True show ?thesis
    using filter_gate_mset [of m packets]
    by (simp add: Bandwidth_ProcessBatch_def Let_def split_beta Bandwidth_enqueue_eq
        Bandwidth_drain_conserves q g add.commute add.left_commute)
qed

lemma Bandwidth_GetReleasablePackets_conserves:
  "mset (fst (Bandwidth_GetReleasablePackets now m)) +
     mset (packet_queue (snd (Bandwidth_GetReleasablePackets now m)))
   = mset (packet_queue m)"
proof -
  have q: "packet_queue (RefillTokenBucket now m) = packet_queue m"
    by (simp add: RefillTokenBucket_def Let_def)
  show ?thesis
    by (simp add: Bandwidth_GetReleasablePackets_def Let_def split_beta release_all_eq
        Bandwidth_drain_conserves q)
qed

lemma PacketLoss_loop_subset:
  "mset (fst (PacketLoss_loop m ps surviving r)) \<subseteq># mset surviving + mset ps"
proof (induction ps arbitrary: surviving r)
  case Nil
  then show ?case by simp
next
  case (Cons p ps)
  have a: "mset (fst (PacketLoss_loop m ps (surviving @ [p]) r')) \<subseteq>#
             mset surviving + mset (p # ps)" for r'
    using Cons.IH [of "surviving @ [p]" r'] by simp
  have b: "mset (fst (PacketLoss_loop m ps surviving r')) \<subseteq>#
             mset surviving + mset (p # ps)" for r'
  proof -
    have "mset (fst (PacketLoss_loop m ps surviving r')) \<subseteq># mset surviving + mset ps"
      by (rule Cons.IH)
    also have "\<dots> \<subseteq># mset surviving + mset (p # ps)"
      by simp
    finally show ?thesis .
  qed
  show ?case
    using a [of r] a [of "snd (ShouldDrop m r)"] b [of "snd (ShouldDrop m r)"]
    by (simp add: split_beta Let_def)
qed

lemma Duplicate_copies_superset:
  "mset out \<subseteq># mset (Duplicate_copies n out)"
proof (induction n arbitrary: out)
  case 0
  then show ?case by simp
next
  case (Suc n)
  have "mset out \<subseteq># mset (out @ [last out])" by simp
  also have "\<dots> \<subseteq># mset (Duplicate_copies n (out @ [last out]))" by (rule Suc.IH)
  finally show ?case by simp
qed

lemma Duplicate_loop_superset:
  "mset out + mset ps \<subseteq># mset (fst (Duplicate_loop m ps out r))"
proof (induction ps arbitrary: out r)
  case Nil
  then show ?case by simp
next
  case (Cons p ps)
  have a: "mset out + mset (p # ps) \<subseteq># mset (fst (Duplicate_loop m ps (out @ [p]) r'))" for r'
    using Cons.IH [of "out @ [p]" r'] by simp
  have b: "mset out + mset (p # ps) \<subseteq>#
      mset (fst (Duplicate_loop m ps (Duplicate_copies k (out @ [p])) r'))" for r' k
  proof -
    have "mset out + mset (p # ps) = mset (out @ [p]) + mset ps" by simp
    also have "\<dots> \<subseteq># mset (Duplicate_copies k (out @ [p])) + mset ps"
      using Duplicate_copies_superset [of "out @ [p]" k]
      by (simp only: subset_mset.add_right_mono)
    also have "\<dots> \<subseteq># mset (fst (Duplicate_loop m ps (Duplicate_copies k (out @ [p])) r'))"
      by (rule Cons.IH)
    finally show ?thesis .
  qed
  show ?case
    using a [of r] a [of "snd (ShouldDuplicate m r)"]
      b [of "duplicate_count m" "snd (ShouldDuplicate m r)"]
    by (simp add: split_beta Let_def)
qed

text \<open>
  Claim C10.  The reorder, jitter, latency and bandwidth stages neither destroy nor
  create packets: for \<open>ProcessBatch\<close> and for \<open>GetReleasablePackets\<close>, enabled or
  disabled, the packets returned together with the packets retained afterwards are, as
  a multiset, the input packets together with the packets retained before.  The jitter
  and latency stages write \<open>release_time\<close> into a packet they retain, so for their
  \<open>ProcessBatch\<close> packets are compared on their bytes, address record and capture time
  (\<open>unscheduled\<close>); every other equation compares whole records.  The loss stage
  returns a sub-multiset of its input (it only destroys), the duplicate stage a
  super-multiset (it only creates).
\<close>

theorem buffering_stages_conserve_packets:
  "mset (fst (OutOfOrder_ProcessBatch ooo packets r)) +
     mset (packet_buffer (fst (snd (OutOfOrder_ProcessBatch ooo packets r))))
     = mset packets + mset (packet_buffer ooo) \<and>
   mset (fst (OutOfOrder_GetReleasablePackets ooo)) +
     mset (packet_buffer (snd (OutOfOrder_GetReleasablePackets ooo)))
     = mset (packet_buffer ooo) \<and>
   image_mset unscheduled
     (mset (fst (Jitter_ProcessBatch now jit packets r)) +
      mset (jitter_delayed_packets (fst (snd (Jitter_ProcessBatch now jit packets r)))))
     = image_mset unscheduled (mset packets + mset (jitter_delayed_packets jit)) \<and>
   mset (fst (Jitter_GetReleasablePackets now jit)) +
     mset (jitter_delayed_packets (snd (Jitter_GetReleasablePackets now jit)))
     = mset (jitter_delayed_packets jit) \<and>
   image_mset unscheduled
     (mset (fst (Latency_ProcessBatch now lat packets)) +
      mset (delayed_packets (snd (Latency_ProcessBatch now lat packets))))
     = image_mset unscheduled (mset packets + mset (delayed_packets lat)) \<and>
   mset (fst (Latency_GetReleasablePackets now lat)) +
     mset (delayed_packets (snd (Latency_GetReleasablePackets now lat)))
     = mset (delayed_packets lat) \<and>
   mset (fst (Bandwidth_ProcessBatch now bw packets)) +
     mset (packet_queue (snd (Bandwidth_ProcessBatch now bw packets)))
     = mset packets + mset (packet_queue bw) \<and>
   mset (fst (Bandwidth_GetReleasablePackets now bw)) +
     mset (packet_queue (snd (Bandwidth_GetReleasablePackets now bw)))
     = mset (packet_queue bw) \<and>
   mset (fst (PacketLoss_ProcessBatch loss packets r)) \<subseteq># mset packets \<and>
   mset packets \<subseteq># mset (fst (Duplicate_ProcessBatch dup packets r))"
proof -
  have l: "mset (fst (PacketLoss_ProcessBatch loss packets r)) \<subseteq># mset packets"
    using PacketLoss_loop_subset [of loss packets "[]" r]
    by (simp add: PacketLoss_ProcessBatch_def)
  have d: "mset packets \<subseteq># mset (fst (Duplicate_ProcessBatch dup packets r))"
    using Duplicate_loop_superset [of "[]" packets dup r]
    by (simp add: Duplicate_ProcessBatch_def)
  show ?thesis
    by (intro conjI OutOfOrder_ProcessBatch_conserves OutOfOrder_GetReleasablePackets_conserves
        Jitter_ProcessBatch_conserves Jitter_GetReleasablePackets_conserves
        Latency_ProcessBatch_conserves Latency_GetReleasablePackets_conserves
        Bandwidth_ProcessBatch_conserves Bandwidth_GetReleasablePackets_conserves l d)
qed

section \<open>Direction gate of the reorder stage\<close>

text \<open>
  Claim C1.  The claim says that every stage returns a packet that fails its direction
  gate at once and unchanged.  The reorder stage does not: \<open>OutOfOrder_append\<close> pushes
  the packet onto the buffer in both branches of the gate.  With inbound processing
  switched off, an inbound packet offered to the enabled reorder stage is not returned
  and stays in \<open>packet_buffer\<close>.
\<close>

theorem reorder_retains_gate_failing_packet:
  "\<not> ShouldProcess (SetInboundEnabled False (SetEnabled True OutOfOrderModule_new))
        (addr (test_packet False 4)) \<and>
   OutOfOrder_ProcessBatch (SetInboundEnabled False (SetEnabled True OutOfOrderModule_new))
      [test_packet False 4] fixed_source
   = ([],
      (SetInboundEnabled False (SetEnabled True OutOfOrderModule_new))
        \<lparr>packet_buffer := [test_packet False 4]\<rparr>,
      fixed_source)"
  by (simp add: OutOfOrder_ProcessBatch_def SetInboundEnabled_def SetEnabled_def
      OutOfOrderModule_new_def ShouldProcess_def test_packet_def Let_def)

section \<open>The pipeline order\<close>

lemma disabled_stage_is_identity:
  "\<not> stage_enabled s c \<Longrightarrow> stage_process_batch clk s (sim, c, r) = (sim, c, r)"
  by (cases s)
     (simp_all add: PacketLoss_ProcessBatch_def Duplicate_ProcessBatch_def
        OutOfOrder_ProcessBatch_def Jitter_ProcessBatch_def Bandwidth_ProcessBatch_def
        Latency_ProcessBatch_def)

lemma pipeline_step_is_process_batch: "pipeline_step clk s x = stage_process_batch clk s x"
  by (cases x) (simp add: pipeline_step_def disabled_stage_is_identity)

lemma ApplySimulationEffects_steps:
  "ApplySimulationEffects clk (sim, c, r) =
     pipeline_step clk Latency (pipeline_step clk Bandwidth (pipeline_step clk Jitter
       (pipeline_step clk Reorder (pipeline_step clk Duplicate
         (pipeline_step clk Loss (sim, c, r))))))"
  by (simp add: ApplySimulationEffects_def pipeline_step_def Let_def split_beta)

text \<open>
  Claim C4.  For every batch, what \<open>CaptureThreadBatch\<close> computes equals stepping the
  batch through the stages in the canonical order loss, duplicate, reorder, jitter,
  bandwidth, latency, where an enabled stage applies its \<open>ProcessBatch\<close> and a disabled
  stage is skipped; skipping a disabled stage is the same as calling its
  \<open>ProcessBatch\<close>, which returns the batch as it is.
\<close>

theorem ApplySimulationEffects_canonical:
  "ApplySimulationEffects clk x = canonical_pipeline clk x \<and>
   ApplySimulationEffects clk x = fold (stage_process_batch clk) canonical_order x"
proof (cases x)
  case (fields sim c r)
  have a: "ApplySimulationEffects clk x = canonical_pipeline clk x"
    unfolding fields ApplySimulationEffects_steps
    by (simp add: canonical_pipeline_def canonical_order_def)
  have "canonical_pipeline clk x = fold (stage_process_batch clk) canonical_order x"
    by (simp add: canonical_pipeline_def canonical_order_def pipeline_step_is_process_batch)
  with a show ?thesis by simp
qed

section \<open>Stop and the final flush\<close>

lemma Stop_flushes_disabled_stages:
  assumes "is_capturing c"
    and "\<not> enabled (out_of_order_module c)" and "\<not> enabled (jitter_module c)"
    and "\<not> enabled (latency_module c)" and "\<not> enabled (bandwidth_module c)"
  shows "buffers_empty (Stop clk c)"
  using assms
  by (simp add: Stop_def buffers_empty_def Let_def split_beta
      Latency_GetReleasablePackets_def Jitter_GetReleasablePackets_def
      Bandwidth_GetReleasablePackets_def OutOfOrder_GetReleasablePackets_def
      release_all_eq OutOfOrder_release_eq)

lemma Stop_latency_module:
  "is_capturing c \<Longrightarrow>
     latency_module (Stop clk c) =
       snd (Latency_GetReleasablePackets (latency_now clk) (latency_module c))"
  by (simp add: Stop_def Let_def split_beta)

text \<open>
  Claim C2.  The claim says that after \<open>Stop\<close> no packet remains in any stage's
  buffer, whichever stages are enabled.  \<open>Stop\<close> calls \<open>GetReleasablePackets\<close>, which
  empties a buffer only when its stage is disabled.  With the latency stage enabled at
  5000 ms, a packet processed at time 0 is still in \<open>delayed_packets\<close> after a \<open>Stop\<close>
  one millisecond later.
\<close>

theorem stop_keeps_packets_of_enabled_stage:
  "is_capturing
     (fst (snd (ApplySimulationEffects (all_now 0)
        ([test_packet True 4],
         (NetworkCapture_new 0)
           \<lparr>latency_module := SetLatency 5000 (SetEnabled True LatencyModule_new),
            is_capturing := True\<rparr>,
         fixed_source)))) \<and>
   delayed_packets (latency_module
     (Stop (all_now 1000000)
       (fst (snd (ApplySimulationEffects (all_now 0)
          ([test_packet True 4],
           (NetworkCapture_new 0)
             \<lparr>latency_module := SetLatency 5000 (SetEnabled True LatencyModule_new),
              is_capturing := True\<rparr>,
           fixed_source))))))
     = [(test_packet True 4)\<lparr>release_time := 5000000000\<rparr>] \<and>
   \<not> buffers_empty
     (Stop (all_now 1000000)
       (fst (snd (ApplySimulationEffects (all_now 0)
          ([test_packet True 4],
           (NetworkCapture_new 0)
             \<lparr>latency_module := SetLatency 5000 (SetEnabled True LatencyModule_new),
              is_capturing := True\<rparr>,
           fixed_source)))))"
proof -
  let ?lat = "SetLatency 5000 (SetEnabled True LatencyModule_new)"
  let ?c = "(NetworkCapture_new 0)\<lparr>latency_module := ?lat, is_capturing := True\<rparr>"
  let ?p = "(test_packet True 4)\<lparr>release_time := 5000000000\<rparr>"
  have run: "ApplySimulationEffects (all_now 0) ([test_packet True 4], ?c, fixed_source)
               = ([], ?c\<lparr>latency_module := ?lat\<lparr>delayed_packets := [?p]\<rparr>\<rparr>, fixed_source)"
    by (simp add: ApplySimulationEffects_def Let_def all_now_def NetworkCapture_new_def
        PacketLossModule_new_def DuplicateModule_new_def OutOfOrderModule_new_def
        JitterModule_new_def BandwidthModule_new_def
        Latency_ProcessBatch_def SetLatency_def SetEnabled_def LatencyModule_new_def
        ShouldProcess_def test_packet_def pq_push_def milliseconds_def)
  have rel: "Latency_GetReleasablePackets 1000000 (?lat\<lparr>delayed_packets := [?p]\<rparr>)
               = ([], ?lat\<lparr>delayed_packets := [?p]\<rparr>)"
    by (simp add: Latency_GetReleasablePackets_def SetLatency_def SetEnabled_def
        LatencyModule_new_def test_packet_def)
  show ?thesis
    unfolding run by (simp add: Stop_latency_module buffers_empty_def all_now_def rel)
qed

section \<open>Latency stage: release times\<close>

lemma release_due_ordered:
  "queue_ordered q \<Longrightarrow>
     release_due now q ready =
       (ready @ filter (\<lambda>p. release_time p \<le> now) q,
        filter (\<lambda>p. \<not> release_time p \<le> now) q)"
proof (induction q arbitrary: ready)
  case Nil
  then show ?case by simp
next
  case (Cons p q)
  have ord: "queue_ordered q" and le: "\<forall>x\<in>set q. release_time p \<le> release_time x"
    using Cons.prems by (simp_all add: queue_ordered_def)
  show ?case
  proof (cases "release_time p \<le> now")
    case True
    then show ?thesis using Cons.IH [OF ord] by simp
  next
    case False
    then have "\<forall>x\<in>set q. \<not> release_time x \<le> now" using le by fastforce
    then have "filter (\<lambda>p. release_time p \<le> now) q = []"
      and "filter (\<lambda>p. \<not> release_time p \<le> now) q = q"
      by (simp_all add: filter_empty_conv filter_id_conv)
    with False show ?thesis by simp
  qed
qed

lemma queue_ordered_push: "queue_ordered q \<Longrightarrow> queue_ordered (pq_push p q)"
  by (simp add: queue_ordered_def pq_push_def sorted_insort_key)

lemma queue_ordered_filter: "queue_ordered q \<Longrightarrow> queue_ordered (filter P q)"
  by (simp add: queue_ordered_def sorted_filter)

lemma set_pq_push: "set (pq_push p q) = insert p (set q)"
  by (simp add: pq_push_def set_insort_key)

lemma Latency_loop_frame:
  "enabled (snd (Latency_loop now m ps imm)) = enabled m \<and>
   inbound_enabled (snd (Latency_loop now m ps imm)) = inbound_enabled m \<and>
   outbound_enabled (snd (Latency_loop now m ps imm)) = outbound_enabled m \<and>
   latency (snd (Latency_loop now m ps imm)) = latency m"
  by (induction ps arbitrary: m imm) (simp_all add: Let_def ShouldProcess_def)

lemma Latency_loop_ordered:
  "queue_ordered (delayed_packets m) \<Longrightarrow>
     queue_ordered (delayed_packets (snd (Latency_loop now m ps imm)))"
  by (induction ps arbitrary: m imm) (simp_all add: Let_def queue_ordered_push)

lemma Latency_loop_delayed:
  "set (delayed_packets (snd (Latency_loop now m ps imm))) =
     set (delayed_packets m) \<union>
     (\<lambda>p. p\<lparr>release_time := now + milliseconds (latency m)\<rparr>) `
        {p \<in> set ps. ShouldProcess m (addr p)}"
proof (induction ps arbitrary: m imm)
  case Nil
  then show ?case by simp
next
  case (Cons p ps)
  show ?case
  proof (cases "ShouldProcess m (addr p)")
    case True
    let ?m1 = "m\<lparr>delayed_packets :=
                  pq_push (p\<lparr>release_time := now + milliseconds (latency m)\<rparr>)
                    (delayed_packets m)\<rparr>"
    have g: "\<And>a. ShouldProcess ?m1 a = ShouldProcess m a"
      by (simp add: ShouldProcess_def)
    from True show ?thesis
      using Cons.IH [of ?m1 imm] by (auto simp: Let_def g set_pq_push)
  next
    case False
    then show ?thesis using Cons.IH [of m "imm @ [p]"] by auto
  qed
qed

lemma Latency_ProcessBatch_frame:
  "enabled (snd (Latency_ProcessBatch now m ps)) = enabled m \<and>
   latency (snd (Latency_ProcessBatch now m ps)) = latency m"
  by (simp add: Latency_ProcessBatch_def Latency_loop_frame)

lemma Latency_ProcessBatch_ordered:
  "queue_ordered (delayed_packets m) \<Longrightarrow>
     queue_ordered (delayed_packets (snd (Latency_ProcessBatch now m ps)))"
  by (simp add: Latency_ProcessBatch_def Latency_loop_ordered)

lemma Latency_ProcessBatch_keeps:
  "q \<in> set (delayed_packets m) \<Longrightarrow>
     q \<in> set (delayed_packets (snd (Latency_ProcessBatch now m ps)))"
  by (simp add: Latency_ProcessBatch_def Latency_loop_delayed)

lemma Latency_ProcessBatch_schedules:
  "enabled m \<Longrightarrow> p \<in> set ps \<Longrightarrow> ShouldProcess m (addr p) \<Longrightarrow>
     p\<lparr>release_time := now + milliseconds (latency m)\<rparr>
       \<in> set (delayed_packets (snd (Latency_ProcessBatch now m ps)))"
  by (simp add: Latency_ProcessBatch_def Latency_loop_delayed)

lemma Latency_GetReleasablePackets_enabled:
  "enabled m \<Longrightarrow> queue_ordered (delayed_packets m) \<Longrightarrow>
     Latency_GetReleasablePackets now m =
       (filter (\<lambda>p. release_time p \<le> now) (delayed_packets m),
        m\<lparr>delayed_packets := filter (\<lambda>p. \<not> release_time p \<le> now) (delayed_packets m)\<rparr>)"
  by (simp add: Latency_GetReleasablePackets_def release_due_ordered)

lemma Latency_GetReleasablePackets_ordered:
  assumes "queue_ordered (delayed_packets m)"
  shows "queue_ordered (delayed_packets (snd (Latency_GetReleasablePackets now m)))"
proof (cases "enabled m")
  case True
  then show ?thesis
    using assms by (simp add: Latency_GetReleasablePackets_enabled queue_ordered_filter)
next
  case False
  then show ?thesis
    by (simp add: Latency_GetReleasablePackets_def release_all_eq queue_ordered_def)
qed

text \<open>Without interference a \<open>ProcessBatch\<close> call is the run of its own locked
  sections: the sections are the same code, cut where the mutex is released.\<close>

lemma ProcessBatch_sections_queue:
  "ProcessBatch_sections (m\<lparr>delayed_packets := q\<rparr>) t ps = ProcessBatch_sections m t ps"
  by (simp add: ProcessBatch_sections_def ShouldProcess_def)

lemma Latency_loop_as_sections:
  "Latency_loop t m ps imm =
     (imm @ filter (\<lambda>p. \<not> ShouldProcess m (addr p)) ps,
      snd (Latency_sections m (ProcessBatch_sections m t ps)))"
proof (induction ps arbitrary: m imm)
  case Nil
  then show ?case by (simp add: ProcessBatch_sections_def)
next
  case (Cons p ps)
  show ?case
  proof (cases "ShouldProcess m (addr p)")
    case True
    let ?m1 = "m\<lparr>delayed_packets :=
                  pq_push (p\<lparr>release_time := t + milliseconds (latency m)\<rparr>)
                    (delayed_packets m)\<rparr>"
    have g: "\<And>a. ShouldProcess ?m1 a = ShouldProcess m a"
      by (simp add: ShouldProcess_def)
    have s: "ProcessBatch_sections m t (p # ps) = LockedPush t p # ProcessBatch_sections ?m1 t ps"
      using True by (simp add: ProcessBatch_sections_def g)
    show ?thesis
      using True Cons.IH [of ?m1 imm] by (simp add: s Let_def g)
  next
    case False
    then have s: "ProcessBatch_sections m t (p # ps) = ProcessBatch_sections m t ps"
      by (simp add: ProcessBatch_sections_def)
    show ?thesis
      using False Cons.IH [of m "imm @ [p]"] by (simp add: s)
  qed
qed

lemma Latency_ProcessBatch_as_sections:
  "enabled m \<Longrightarrow>
     Latency_ProcessBatch t m packets =
       (filter (\<lambda>p. \<not> ShouldProcess m (addr p)) packets,
        snd (Latency_sections m (ProcessBatch_sections m t packets)))"
  by (simp add: Latency_ProcessBatch_def Latency_loop_as_sections)

lemma gate_passing_packet_is_pushed:
  "p \<in> set packets \<Longrightarrow> ShouldProcess m (addr p) \<Longrightarrow>
     LockedPush t p \<in> set (ProcessBatch_sections m t packets)"
  by (simp add: ProcessBatch_sections_def)

lemma release_due_not_early:
  "x \<in> set (fst (release_due now q ready)) \<Longrightarrow> x \<in> set ready \<or> release_time x \<le> now"
proof (induction q arbitrary: ready)
  case Nil
  then show ?case by simp
next
  case (Cons p q)
  show ?case
  proof (cases "release_time p \<le> now")
    case True
    then have "x \<in> set (fst (release_due now q (ready @ [p])))"
      using Cons.prems by simp
    from Cons.IH [OF this] True show ?thesis by auto
  next
    case False
    then show ?thesis using Cons.prems by simp
  qed
qed

lemma LockedRelease_not_early:
  "enabled m \<Longrightarrow> x \<in> set (fst (Latency_section m (LockedRelease now))) \<Longrightarrow>
     release_time x \<le> now"
  using release_due_not_early [of x now "delayed_packets m" "[]"]
  by (simp add: Latency_GetReleasablePackets_def split_beta)

lemma Latency_section_frame:
  "enabled m \<Longrightarrow>
     enabled (snd (Latency_section m c)) \<and> latency (snd (Latency_section m c)) = latency m"
  by (cases c) (simp_all add: Latency_GetReleasablePackets_def split_beta)

lemma Latency_section_ordered:
  "queue_ordered (delayed_packets m) \<Longrightarrow>
     queue_ordered (delayed_packets (snd (Latency_section m c)))"
  by (cases c) (simp_all add: queue_ordered_push Latency_GetReleasablePackets_ordered)

lemma Latency_sections_hold_back:
  assumes "enabled m" and "queue_ordered (delayed_packets m)"
    and "q \<in> set (delayed_packets m)"
    and "\<forall>c\<in>set run. is_release c \<longrightarrow> section_clock c < release_time q"
  shows "(\<forall>out\<in>set (fst (Latency_sections m run)). q \<notin> set out) \<and>
         q \<in> set (delayed_packets (snd (Latency_sections m run))) \<and>
         enabled (snd (Latency_sections m run)) \<and>
         queue_ordered (delayed_packets (snd (Latency_sections m run))) \<and>
         latency (snd (Latency_sections m run)) = latency m"
  using assms
proof (induction run arbitrary: m)
  case Nil
  then show ?case by simp
next
  case (Cons c run)
  let ?m1 = "snd (Latency_section m c)"
  have e1: "enabled ?m1" and l1: "latency ?m1 = latency m"
    using Cons.prems(1) by (simp_all add: Latency_section_frame)
  have o1: "queue_ordered (delayed_packets ?m1)"
    using Cons.prems(2) by (rule Latency_section_ordered)
  have rest: "\<forall>c\<in>set run. is_release c \<longrightarrow> section_clock c < release_time q"
    using Cons.prems(4) by simp
  show ?case
  proof (cases c)
    case (LockedPush t p)
    have in1: "q \<in> set (delayed_packets ?m1)"
      using Cons.prems(3) LockedPush by (simp add: set_pq_push)
    from Cons.IH [OF e1 o1 in1 rest] l1 show ?thesis
      using LockedPush by simp
  next
    case (LockedRelease t)
    have late: "t < release_time q"
      using Cons.prems(4) LockedRelease by simp
    have step: "Latency_section m c =
                  (filter (\<lambda>p. release_time p \<le> t) (delayed_packets m),
                   m\<lparr>delayed_packets :=
                       filter (\<lambda>p. \<not> release_time p \<le> t) (delayed_packets m)\<rparr>)"
      using Cons.prems(1,2) LockedRelease by (simp add: Latency_GetReleasablePackets_enabled)
    have in1: "q \<in> set (delayed_packets ?m1)"
      using Cons.prems(3) late by (simp add: step)
    have out: "q \<notin> set (fst (Latency_section m c))"
      using late by (simp add: step)
    from Cons.IH [OF e1 o1 in1 rest] l1 out show ?thesis
      using LockedRelease by (simp add: split_beta)
  qed
qed

text \<open>
  Claim C8, amended.  Let the latency stage be enabled with delay \<open>latency m\<close> (in
  milliseconds) and stay so.  A packet that passes the direction gate in a
  \<open>ProcessBatch\<close> call that read the clock value \<open>t\<close> is pushed with release time
  \<open>t + milliseconds (latency m)\<close>.  No \<open>GetReleasablePackets\<close> call that read a clock
  value below that release time returns the packet, whatever the state it finds.  In
  any continuation of the run after the push in which every release section read a
  clock value below the release time, the packet stays queued, and the next release
  section that read a clock value \<open>T\<close> at or after the release time returns it: the
  packet is returned by the first release that takes the mutex after the push with a
  clock value at or after \<open>t + milliseconds (latency m)\<close>.  The queue is in
  release-time order, as \<open>pq_push\<close> and the pop loops keep it.
\<close>

theorem latency_release_is_on_time:
  assumes "enabled m" and "queue_ordered (delayed_packets m)"
    and "\<forall>c\<in>set later. is_release c \<longrightarrow> section_clock c < t + milliseconds (latency m)"
    and "t + milliseconds (latency m) \<le> T"
  shows
    "(let p' = p\<lparr>release_time := t + milliseconds (latency m)\<rparr>;
          m1 = snd (Latency_section m (LockedPush t p));
          (earlier, m2) = Latency_sections m1 later
      in p' \<in> set (delayed_packets m1) \<and>
         (\<forall>out\<in>set earlier. p' \<notin> set out) \<and>
         p' \<in> set (fst (Latency_section m2 (LockedRelease T))) \<and>
         (\<forall>m' T'. enabled m' \<and> T' < t + milliseconds (latency m) \<longrightarrow>
                   p' \<notin> set (fst (Latency_section m' (LockedRelease T')))))"
proof -
  let ?p' = "p\<lparr>release_time := t + milliseconds (latency m)\<rparr>"
  let ?m1 = "snd (Latency_section m (LockedPush t p))"
  let ?m2 = "snd (Latency_sections ?m1 later)"
  have in1: "?p' \<in> set (delayed_packets ?m1)"
    by (simp add: set_pq_push)
  have e1: "enabled ?m1"
    using assms(1) by (simp add: Latency_section_frame)
  have o1: "queue_ordered (delayed_packets ?m1)"
    using assms(2) by (rule Latency_section_ordered)
  have c: "\<forall>c\<in>set later. is_release c \<longrightarrow> section_clock c < release_time ?p'"
    using assms(3) by simp
  note hold = Latency_sections_hold_back [OF e1 o1 in1 c]
  have last: "?p' \<in> set (fst (Latency_section ?m2 (LockedRelease T)))"
    using hold assms(4) by (simp add: Latency_GetReleasablePackets_enabled)
  have never: "?p' \<notin> set (fst (Latency_section m' (LockedRelease T')))"
    if "enabled m'" and "T' < t + milliseconds (latency m)" for m' T'
    using LockedRelease_not_early [OF that(1), of ?p' T'] that(2) by auto
  from in1 hold last never show ?thesis
    by (simp add: Let_def split_beta)
qed

theorem latency_release_is_on_time_witness:
  "(test_packet True 4)\<lparr>release_time := 100000000\<rparr>
     \<notin> set (concat (fst (Latency_sections
          (snd (Latency_section (SetLatency 100 (SetEnabled True LatencyModule_new))
                  (LockedPush 0 (test_packet True 4))))
          [LockedRelease 99000000]))) \<and>
   (test_packet True 4)\<lparr>release_time := 100000000\<rparr>
     \<in> set (fst (Latency_section
          (snd (Latency_sections
            (snd (Latency_section (SetLatency 100 (SetEnabled True LatencyModule_new))
                    (LockedPush 0 (test_packet True 4))))
            [LockedRelease 99000000]))
          (LockedRelease 110000000)))"
proof -
  let ?m = "SetLatency 100 (SetEnabled True LatencyModule_new)"
  have h1: "enabled ?m"
    by (simp add: SetLatency_def SetEnabled_def LatencyModule_new_def)
  have h2: "queue_ordered (delayed_packets ?m)"
    by (simp add: SetLatency_def SetEnabled_def LatencyModule_new_def queue_ordered_def)
  have d: "milliseconds (latency ?m) = 100000000"
    by (simp add: SetLatency_def milliseconds_def)
  have h3: "\<forall>c\<in>set [LockedRelease 99000000].
              is_release c \<longrightarrow> section_clock c < 0 + milliseconds (latency ?m)"
    by (simp add: d)
  have h4: "0 + milliseconds (latency ?m) \<le> 110000000"
    by (simp add: d)
  have "(let p' = (test_packet True 4)\<lparr>release_time := 0 + milliseconds (latency ?m)\<rparr>;
          m1 = snd (Latency_section ?m (LockedPush 0 (test_packet True 4)));
          (earlier, m2) = Latency_sections m1 [LockedRelease 99000000]
      in p' \<in> set (delayed_packets m1) \<and>
         (\<forall>out\<in>set earlier. p' \<notin> set out) \<and>
         p' \<in> set (fst (Latency_section m2 (LockedRelease 110000000))) \<and>
         (\<forall>m' T'. enabled m' \<and> T' < 0 + milliseconds (latency ?m) \<longrightarrow>
                   p' \<notin> set (fst (Latency_section m' (LockedRelease T')))))"
    by (rule latency_release_is_on_time [OF h1 h2 h3 h4])
  then show ?thesis
    by (simp add: Let_def split_beta d)
qed

text \<open>
  Claim C8 as stated fails: the first \<open>GetReleasablePackets\<close> call with a clock value
  at or after \<open>t + D\<close> need not return the packet, because it can take the mutex before
  the packet is pushed.  With the default delay 0, a \<open>ProcessBatch\<close> call reads the
  clock value 0; before it pushes its packet a release call reads the clock value 1000
  and finds the queue empty; the packet is pushed next and is returned by the following
  release call, 10 ms later.
\<close>

theorem release_before_push_misses_packet:
  "0 + milliseconds (latency (SetEnabled True LatencyModule_new)) \<le> 1000 \<and>
   fst (Latency_sections (SetEnabled True LatencyModule_new)
          [LockedRelease 1000, LockedPush 0 (test_packet True 4), LockedRelease 10001000])
     = [[], [test_packet True 4]]"
  by (simp add: SetEnabled_def LatencyModule_new_def milliseconds_def
      Latency_GetReleasablePackets_def pq_push_def test_packet_def)

section \<open>Bandwidth stage: the token bucket\<close>

lemma total_bytes_Nil: "total_bytes [] = 0"
  by (simp add: total_bytes_def)

lemma total_bytes_append: "total_bytes (xs @ ys) = total_bytes xs + total_bytes ys"
  by (simp add: total_bytes_def)

lemma Bandwidth_drain_tokens:
  "real (total_bytes (fst (Bandwidth_drain a q out))) + snd (snd (Bandwidth_drain a q out))
     = real (total_bytes out) + a"
  by (induction q arbitrary: a out)
     (simp_all add: split_beta ConsumeTokens_def total_bytes_append total_bytes_def)

lemma Bandwidth_drain_nonneg:
  "0 \<le> a \<Longrightarrow> 0 \<le> snd (snd (Bandwidth_drain a q out))"
  by (induction q arbitrary: a out) (simp_all add: split_beta ConsumeTokens_def)

lemma Bandwidth_drain_le:
  "snd (snd (Bandwidth_drain a q out)) \<le> a"
proof (induction q arbitrary: a out)
  case Nil
  then show ?case by simp
next
  case (Cons p q)
  show ?case
    using Cons.IH [of "a - real (length (data p))" "out @ [p]"]
    by (simp add: split_beta ConsumeTokens_def)
qed

lemma gate_failing_flags:
  "inbound_enabled m' = inbound_enabled m \<Longrightarrow> outbound_enabled m' = outbound_enabled m \<Longrightarrow>
     gate_failing m' calls = gate_failing m calls"
  by (induction calls rule: gate_failing.induct) (simp_all add: ShouldProcess_def)

lemma RefillTokenBucket_fields:
  "available_bytes (RefillTokenBucket t m) = refilled t m \<and>
   last_refill_time (RefillTokenBucket t m) = t \<and>
   max_burst_bytes (RefillTokenBucket t m) = max_burst_bytes m \<and>
   bandwidth_kbps (RefillTokenBucket t m) = bandwidth_kbps m \<and>
   packet_queue (RefillTokenBucket t m) = packet_queue m \<and>
   enabled (RefillTokenBucket t m) = enabled m \<and>
   inbound_enabled (RefillTokenBucket t m) = inbound_enabled m \<and>
   outbound_enabled (RefillTokenBucket t m) = outbound_enabled m"
  by (simp add: RefillTokenBucket_def refilled_def Let_def mult.commute)

lemma ShouldProcess_Refill: "ShouldProcess (RefillTokenBucket t m) a = ShouldProcess m a"
  by (simp add: ShouldProcess_def RefillTokenBucket_fields)

lemma Bandwidth_ProcessBatch_frame:
  "enabled m \<Longrightarrow>
   last_refill_time (snd (Bandwidth_ProcessBatch t m ps)) = t \<and>
   max_burst_bytes (snd (Bandwidth_ProcessBatch t m ps)) = max_burst_bytes m \<and>
   bandwidth_kbps (snd (Bandwidth_ProcessBatch t m ps)) = bandwidth_kbps m \<and>
   enabled (snd (Bandwidth_ProcessBatch t m ps)) \<and>
   inbound_enabled (snd (Bandwidth_ProcessBatch t m ps)) = inbound_enabled m \<and>
   outbound_enabled (snd (Bandwidth_ProcessBatch t m ps)) = outbound_enabled m"
  by (simp add: Bandwidth_ProcessBatch_def Let_def split_beta RefillTokenBucket_fields)

lemma Bandwidth_GetReleasablePackets_frame:
  "enabled m \<Longrightarrow>
   last_refill_time (snd (Bandwidth_GetReleasablePackets t m)) = t \<and>
   max_burst_bytes (snd (Bandwidth_GetReleasablePackets t m)) = max_burst_bytes m \<and>
   bandwidth_kbps (snd (Bandwidth_GetReleasablePackets t m)) = bandwidth_kbps m \<and>
   enabled (snd (Bandwidth_GetReleasablePackets t m)) \<and>
   inbound_enabled (snd (Bandwidth_GetReleasablePackets t m)) = inbound_enabled m \<and>
   outbound_enabled (snd (Bandwidth_GetReleasablePackets t m)) = outbound_enabled m"
  by (simp add: Bandwidth_GetReleasablePackets_def Let_def split_beta RefillTokenBucket_fields)

lemma Bandwidth_ProcessBatch_tokens:
  "enabled m \<Longrightarrow>
   real (total_bytes (fst (Bandwidth_ProcessBatch t m ps))) +
     available_bytes (snd (Bandwidth_ProcessBatch t m ps))
   = real (total_bytes (filter (\<lambda>p. \<not> ShouldProcess m (addr p)) ps)) + refilled t m"
  by (simp add: Bandwidth_ProcessBatch_def Let_def split_beta RefillTokenBucket_fields
      Bandwidth_enqueue_eq Bandwidth_drain_tokens ShouldProcess_Refill)

lemma Bandwidth_GetReleasablePackets_tokens:
  "enabled m \<Longrightarrow>
   real (total_bytes (fst (Bandwidth_GetReleasablePackets t m))) +
     available_bytes (snd (Bandwidth_GetReleasablePackets t m))
   = refilled t m"
  using Bandwidth_drain_tokens [of "refilled t m" "packet_queue m" "[]"]
  by (simp add: Bandwidth_GetReleasablePackets_def Let_def split_beta RefillTokenBucket_fields
      total_bytes_def)

lemma Bandwidth_ProcessBatch_nonneg:
  "enabled m \<Longrightarrow> 0 \<le> refilled t m \<Longrightarrow>
     0 \<le> available_bytes (snd (Bandwidth_ProcessBatch t m ps))"
  by (simp add: Bandwidth_ProcessBatch_def Let_def split_beta RefillTokenBucket_fields
      Bandwidth_drain_nonneg)

lemma Bandwidth_GetReleasablePackets_nonneg:
  "enabled m \<Longrightarrow> 0 \<le> refilled t m \<Longrightarrow>
     0 \<le> available_bytes (snd (Bandwidth_GetReleasablePackets t m))"
  by (simp add: Bandwidth_GetReleasablePackets_def Let_def split_beta RefillTokenBucket_fields
      Bandwidth_drain_nonneg)

lemma Bandwidth_ProcessBatch_le:
  "enabled m \<Longrightarrow> available_bytes (snd (Bandwidth_ProcessBatch t m ps)) \<le> refilled t m"
  by (simp add: Bandwidth_ProcessBatch_def Let_def split_beta RefillTokenBucket_fields
      Bandwidth_drain_le)

lemma Bandwidth_GetReleasablePackets_le:
  "enabled m \<Longrightarrow> available_bytes (snd (Bandwidth_GetReleasablePackets t m)) \<le> refilled t m"
  by (simp add: Bandwidth_GetReleasablePackets_def Let_def split_beta RefillTokenBucket_fields
      Bandwidth_drain_le)

lemma refilled_bounds:
  assumes "0 \<le> available_bytes m" and "0 \<le> max_burst_bytes m" and "last_refill_time m \<le> t"
  shows "0 \<le> refilled t m \<and> refilled t m \<le> max_burst_bytes m \<and>
         refilled t m \<le> available_bytes m +
           real (bandwidth_kbps m) * 125 * (real_of_int (t - last_refill_time m) / 1000000000)"
proof -
  have "0 \<le> real (bandwidth_kbps m) * 125 * (real_of_int (t - last_refill_time m) / 1000000000)"
    using assms(3) by simp
  with assms show ?thesis by (simp add: refilled_def)
qed

lemma Bandwidth_call_step:
  assumes "enabled m"
  shows "last_refill_time (snd (Bandwidth_call m c)) = call_time c \<and>
         max_burst_bytes (snd (Bandwidth_call m c)) = max_burst_bytes m \<and>
         bandwidth_kbps (snd (Bandwidth_call m c)) = bandwidth_kbps m \<and>
         enabled (snd (Bandwidth_call m c)) \<and>
         inbound_enabled (snd (Bandwidth_call m c)) = inbound_enabled m \<and>
         outbound_enabled (snd (Bandwidth_call m c)) = outbound_enabled m \<and>
         real (total_bytes (fst (Bandwidth_call m c))) + available_bytes (snd (Bandwidth_call m c))
           = real (total_bytes (gate_failing m [c])) + refilled (call_time c) m \<and>
         available_bytes (snd (Bandwidth_call m c)) \<le> refilled (call_time c) m \<and>
         (0 \<le> refilled (call_time c) m \<longrightarrow> 0 \<le> available_bytes (snd (Bandwidth_call m c)))"
  using assms
  by (cases c)
     (simp_all add: Bandwidth_ProcessBatch_frame Bandwidth_GetReleasablePackets_frame
        Bandwidth_ProcessBatch_tokens Bandwidth_GetReleasablePackets_tokens
        Bandwidth_ProcessBatch_nonneg Bandwidth_GetReleasablePackets_nonneg
        Bandwidth_ProcessBatch_le Bandwidth_GetReleasablePackets_le total_bytes_Nil)

lemma gate_failing_Cons:
  "total_bytes (gate_failing m (c # calls)) =
     total_bytes (gate_failing m [c]) + total_bytes (gate_failing m calls)"
  by (cases c) (simp_all add: total_bytes_append total_bytes_Nil)

lemma Bandwidth_run_account:
  assumes "enabled m" and "0 \<le> available_bytes m" and "0 \<le> max_burst_bytes m"
    and "sorted (map call_time calls)"
    and "\<forall>c\<in>set calls. last_refill_time m \<le> call_time c"
  shows
    "real (total_bytes (fst (Bandwidth_run m calls))) + available_bytes (snd (Bandwidth_run m calls))
       \<le> available_bytes m +
          real (bandwidth_kbps m) * 125 *
            (real_of_int (last_refill_time (snd (Bandwidth_run m calls)) - last_refill_time m)
               / 1000000000) +
          real (total_bytes (gate_failing m calls)) \<and>
     0 \<le> available_bytes (snd (Bandwidth_run m calls)) \<and>
     last_refill_time (snd (Bandwidth_run m calls))
       \<in> insert (last_refill_time m) (call_time ` set calls)"
  using assms
proof (induction calls arbitrary: m)
  case Nil
  then show ?case by (simp add: total_bytes_Nil)
next
  case (Cons c calls)
  let ?t = "call_time c"
  let ?k = "real (bandwidth_kbps m) * 125"
  let ?out = "fst (Bandwidth_call m c)"
  let ?m1 = "snd (Bandwidth_call m c)"
  let ?m2 = "snd (Bandwidth_run ?m1 calls)"
  have t: "last_refill_time m \<le> ?t" using Cons.prems by simp
  note rb = refilled_bounds [OF Cons.prems(2) Cons.prems(3) t]
  note st = Bandwidth_call_step [OF Cons.prems(1), of c]
  have later: "\<forall>d\<in>set calls. ?t \<le> call_time d" and srt: "sorted (map call_time calls)"
    using Cons.prems(4) by simp_all
  have run: "Bandwidth_run m (c # calls) = (?out @ fst (Bandwidth_run ?m1 calls), ?m2)"
    by (simp add: split_beta)
  have e1: "enabled ?m1" using st by simp
  have nonneg: "0 \<le> available_bytes ?m1" using st rb by simp
  have mb: "0 \<le> max_burst_bytes ?m1" using Cons.prems(3) st by simp
  have pre: "\<forall>d\<in>set calls. last_refill_time ?m1 \<le> call_time d"
    using later st by simp
  note IH = Cons.IH [OF e1 nonneg mb srt pre]
  have gf: "gate_failing ?m1 calls = gate_failing m calls"
    by (rule gate_failing_flags) (simp_all add: st)
  have lin: "?k * (real_of_int (?t - last_refill_time m) / 1000000000) +
             ?k * (real_of_int (last_refill_time ?m2 - ?t) / 1000000000)
           = ?k * (real_of_int (last_refill_time ?m2 - last_refill_time m) / 1000000000)"
    by (simp add: algebra_simps diff_divide_distrib)
  have a1: "real (total_bytes (fst (Bandwidth_run ?m1 calls))) + available_bytes ?m2
          \<le> available_bytes ?m1 + ?k * (real_of_int (last_refill_time ?m2 - ?t) / 1000000000)
             + real (total_bytes (gate_failing m calls))"
    using IH st by (simp add: gf)
  have a2: "refilled ?t m \<le> available_bytes m +
              ?k * (real_of_int (?t - last_refill_time m) / 1000000000)"
    using rb by simp
  have tokens: "real (total_bytes ?out) + available_bytes ?m1 =
                  real (total_bytes (gate_failing m [c])) + refilled ?t m"
    using st by simp
  have main: "real (total_bytes (?out @ fst (Bandwidth_run ?m1 calls))) + available_bytes ?m2
       \<le> available_bytes m +
          ?k * (real_of_int (last_refill_time ?m2 - last_refill_time m) / 1000000000) +
          real (total_bytes (gate_failing m (c # calls)))"
    using a1 a2 tokens lin gate_failing_Cons [of m c calls] by (simp add: total_bytes_append)
  have mem: "last_refill_time ?m2 \<in> insert (last_refill_time m) (call_time ` set (c # calls))"
    using IH st by auto
  from main mem IH show ?case
    unfolding run by simp
qed

text \<open>
  Claim C9, amended.  Take the bandwidth stage enabled, with a fixed rate and fixed
  direction flags, over an interval of length \<open>T\<close> in which the only calls on the stage
  are \<open>ProcessBatch\<close> and \<open>GetReleasablePackets\<close> (no setter is called; what a
  repeated \<open>SetEnabled(true)\<close> does to the bucket is left out of the statement).  In
  exact arithmetic the bytes returned by these calls are at most
  \<open>kbps * 125 * T_seconds + max_burst_bytes\<close> plus the bytes of the offered packets that
  fail the direction gate: those packets are returned at once without tokens, every
  other packet is returned only when \<open>available_bytes\<close> covers its length.  The calls
  hold the mutex and read the clock inside it, so their clock values do not decrease.
\<close>

theorem shaped_bytes_bounded:
  assumes "enabled m" and "0 \<le> available_bytes m" and "burst_is_one_second m"
    and "sorted (map call_time calls)"
    and "\<forall>c\<in>set calls. s \<le> call_time c \<and> call_time c \<le> s + T"
    and "last_refill_time m \<le> s" and "0 \<le> T"
  shows "real (total_bytes (fst (Bandwidth_run m calls)))
           \<le> real (bandwidth_kbps m) * 125 * (real_of_int T / 1000000000)
              + max_burst_bytes m
              + real (total_bytes (gate_failing m calls))"
proof (cases calls)
  case Nil
  have "0 \<le> max_burst_bytes m" using assms(3) by (simp add: burst_is_one_second_def)
  moreover have "0 \<le> real (bandwidth_kbps m) * 125 * (real_of_int T / 1000000000)"
    using assms(7) by simp
  ultimately show ?thesis using Nil by (simp add: total_bytes_Nil)
next
  case (Cons c cs)
  let ?t = "call_time c"
  let ?k = "real (bandwidth_kbps m) * 125"
  let ?out = "fst (Bandwidth_call m c)"
  let ?m1 = "snd (Bandwidth_call m c)"
  let ?m2 = "snd (Bandwidth_run ?m1 cs)"
  have B: "0 \<le> max_burst_bytes m" using assms(3) by (simp add: burst_is_one_second_def)
  have t: "last_refill_time m \<le> ?t" and ts: "s \<le> ?t" and tT: "?t \<le> s + T"
    using assms(5,6) Cons by simp_all
  note rb = refilled_bounds [OF assms(2) B t]
  note st = Bandwidth_call_step [OF assms(1), of c]
  have later: "\<forall>d\<in>set cs. ?t \<le> call_time d" and srt: "sorted (map call_time cs)"
    using assms(4) Cons by simp_all
  have e1: "enabled ?m1" using st by simp
  have nonneg: "0 \<le> available_bytes ?m1" using st rb by simp
  have mb: "0 \<le> max_burst_bytes ?m1" using B st by simp
  have pre: "\<forall>d\<in>set cs. last_refill_time ?m1 \<le> call_time d"
    using later st by simp
  note acc = Bandwidth_run_account [OF e1 nonneg mb srt pre]
  have gf: "gate_failing ?m1 cs = gate_failing m cs"
    by (rule gate_failing_flags) (simp_all add: st)
  have "last_refill_time ?m2 \<in> insert ?t (call_time ` set cs)"
    using acc st by simp
  then have "last_refill_time ?m2 \<le> s + T"
    using tT assms(5) Cons by auto
  then have span: "real_of_int (last_refill_time ?m2 - ?t) \<le> real_of_int T"
    using ts by simp
  have "?k * (real_of_int (last_refill_time ?m2 - ?t) / 1000000000)
          \<le> ?k * (real_of_int T / 1000000000)"
    by (rule mult_left_mono) (use span in \<open>simp_all add: divide_right_mono\<close>)
  moreover have "real (total_bytes (fst (Bandwidth_run ?m1 cs))) + available_bytes ?m2
          \<le> available_bytes ?m1 + ?k * (real_of_int (last_refill_time ?m2 - ?t) / 1000000000)
             + real (total_bytes (gate_failing m cs))"
    using acc st by (simp add: gf)
  moreover have "0 \<le> available_bytes ?m2" using acc by simp
  moreover have "real (total_bytes ?out) + available_bytes ?m1 =
                  real (total_bytes (gate_failing m [c])) + refilled ?t m"
    using st by simp
  moreover have "refilled ?t m \<le> max_burst_bytes m" using rb by simp
  ultimately have
    "real (total_bytes ?out) + real (total_bytes (fst (Bandwidth_run ?m1 cs)))
       \<le> ?k * (real_of_int T / 1000000000) + max_burst_bytes m
          + (real (total_bytes (gate_failing m [c])) + real (total_bytes (gate_failing m cs)))"
    by linarith
  then show ?thesis
    unfolding Cons using gate_failing_Cons [of m c cs]
    by (simp add: split_beta total_bytes_append)
qed

theorem shaped_bytes_bounded_witness:
  "real (total_bytes (fst (Bandwidth_run
      (Bandwidth_SetEnabled True 0 (SetBandwidthLimit 56 (BandwidthModule_new 0)))
      [ProcessBatch_at 0 [test_packet True 1500, test_packet True 1500, test_packet True 1500],
       GetReleasablePackets_at 1000000000]))) \<le> 14000"
proof -
  let ?m = "Bandwidth_SetEnabled True 0 (SetBandwidthLimit 56 (BandwidthModule_new 0))"
  let ?calls = "[ProcessBatch_at 0 [test_packet True 1500, test_packet True 1500, test_packet True 1500],
       GetReleasablePackets_at 1000000000]"
  have v: "available_bytes ?m = 3500" "max_burst_bytes ?m = 7000" "bandwidth_kbps ?m = 56"
    "last_refill_time ?m = 0" "enabled ?m" "inbound_enabled ?m" "outbound_enabled ?m"
    by (simp_all add: Bandwidth_SetEnabled_def SetBandwidthLimit_def BandwidthModule_new_def Let_def)
  have h1: "enabled ?m" by (simp add: v)
  have h2: "0 \<le> available_bytes ?m" by (simp add: v)
  have h3: "burst_is_one_second ?m" by (simp add: burst_is_one_second_def v)
  have h4: "sorted (map call_time ?calls)" by simp
  have h5: "\<forall>c\<in>set ?calls. 0 \<le> call_time c \<and> call_time c \<le> 0 + 1000000000" by simp
  have h6: "last_refill_time ?m \<le> 0" by (simp add: v)
  have h7: "(0::int) \<le> 1000000000" by simp
  have g: "gate_failing ?m ?calls = []"
    by (simp add: ShouldProcess_def v test_packet_def)
  have rhs: "real (bandwidth_kbps ?m) * 125 * (real_of_int 1000000000 / 1000000000)
               + max_burst_bytes ?m + real (total_bytes (gate_failing ?m ?calls)) = 14000"
    unfolding g v total_bytes_Nil by simp
  show ?thesis
    using shaped_bytes_bounded [OF h1 h2 h3 h4 h5 h6 h7] unfolding rhs .
qed

text \<open>
  Claim C9 as stated fails for packets that fail the direction gate: at 56 kbps with
  inbound processing switched off, ten inbound packets of 1500 bytes offered in one
  \<open>ProcessBatch\<close> call are all returned by that call, 15000 bytes, more than
  \<open>56 * 125 * 1 + 7000 = 14000\<close>, the claimed bound for an interval of one second.
\<close>

theorem unshaped_bytes_exceed_bound:
  "enabled (SetInboundEnabled False
       (Bandwidth_SetEnabled True 0 (SetBandwidthLimit 56 (BandwidthModule_new 0)))) \<and>
   fst (Bandwidth_run
      (SetInboundEnabled False
         (Bandwidth_SetEnabled True 0 (SetBandwidthLimit 56 (BandwidthModule_new 0))))
      [ProcessBatch_at 0 (replicate 10 (test_packet False 1500))])
     = replicate 10 (test_packet False 1500) \<and>
   \<not> real (total_bytes (fst (Bandwidth_run
      (SetInboundEnabled False
         (Bandwidth_SetEnabled True 0 (SetBandwidthLimit 56 (BandwidthModule_new 0))))
      [ProcessBatch_at 0 (replicate 10 (test_packet False 1500))])))
     \<le> real (bandwidth_kbps (SetInboundEnabled False
         (Bandwidth_SetEnabled True 0 (SetBandwidthLimit 56 (BandwidthModule_new 0))))) * 125
           * (real_of_int 1000000000 / 1000000000)
         + max_burst_bytes (SetInboundEnabled False
         (Bandwidth_SetEnabled True 0 (SetBandwidthLimit 56 (BandwidthModule_new 0))))"
proof -
  let ?m = "SetInboundEnabled False
         (Bandwidth_SetEnabled True 0 (SetBandwidthLimit 56 (BandwidthModule_new 0)))"
  let ?ps = "replicate 10 (test_packet False 1500)"
  have v: "available_bytes ?m = 3500" "max_burst_bytes ?m = 7000" "bandwidth_kbps ?m = 56"
    "last_refill_time ?m = 0" "enabled ?m" "\<not> inbound_enabled ?m" "outbound_enabled ?m"
    "packet_queue ?m = []"
    by (simp_all add: Bandwidth_SetEnabled_def SetBandwidthLimit_def BandwidthModule_new_def
        SetInboundEnabled_def Let_def)
  have gate: "\<not> ShouldProcess ?m (addr (test_packet False 1500))"
    by (simp add: ShouldProcess_def v test_packet_def)
  have out: "fst (Bandwidth_ProcessBatch 0 ?m ?ps) = ?ps"
    by (simp add: Bandwidth_ProcessBatch_def Let_def split_beta RefillTokenBucket_fields
        Bandwidth_enqueue_eq ShouldProcess_Refill gate v)
  have len: "total_bytes ?ps = 15000"
    by (simp add: total_bytes_def test_packet_def sum_list_replicate)
  show ?thesis
    by (simp add: split_beta out len v)
qed

text \<open>
  Why \<open>SetEnabled\<close> is kept out of the interval: \<open>BandwidthModule::SetEnabled(true)\<close>
  does not look at whether the stage is enabled already and sets \<open>available_bytes\<close> to
  half the burst every time.  At 8 kbps (1000 bytes per second, burst 1000), three
  \<open>ProcessBatch\<close> calls within 32 ms, each after a \<open>SetEnabled(true)\<close>, return three
  packets of 480 bytes: 1440 bytes, where \<open>kbps * 125 * T_seconds + max_burst_bytes\<close> is
  1032.
\<close>

lemma repeated_SetEnabled_reseeds_bucket:
  "(let m0 = Bandwidth_SetEnabled True 0 (SetBandwidthLimit 8 (BandwidthModule_new 0));
        (o1, m1) = Bandwidth_ProcessBatch 0 m0 [test_packet True 480];
        (o2, m2) = Bandwidth_ProcessBatch 16000000 (Bandwidth_SetEnabled True 16000000 m1)
                     [test_packet True 480];
        (o3, m3) = Bandwidth_ProcessBatch 32000000 (Bandwidth_SetEnabled True 32000000 m2)
                     [test_packet True 480]
    in o1 @ o2 @ o3 = [test_packet True 480, test_packet True 480, test_packet True 480] \<and>
       total_bytes (o1 @ o2 @ o3) = 1440 \<and>
       real (bandwidth_kbps m0) * 125 * (real_of_int 32000000 / 1000000000)
         + max_burst_bytes m0 = 1032)"
proof -
  let ?p = "test_packet True 480"
  have len: "length (data ?p) = 480" and gate: "Outbound (addr ?p)"
    by (simp_all add: test_packet_def)
  have step: "Bandwidth_ProcessBatch t
                \<lparr>enabled = True, inbound_enabled = True, outbound_enabled = True,
                 bandwidth_kbps = 8, last_refill_time = t, available_bytes = 500,
                 max_burst_bytes = 1000, packet_queue = []\<rparr> [?p]
              = ([?p],
                 \<lparr>enabled = True, inbound_enabled = True, outbound_enabled = True,
                  bandwidth_kbps = 8, last_refill_time = t, available_bytes = 20,
                  max_burst_bytes = 1000, packet_queue = []\<rparr>)" for t
    by (simp add: Bandwidth_ProcessBatch_def RefillTokenBucket_def ShouldProcess_def
        ConsumeTokens_def Let_def len gate)
  have m0: "Bandwidth_SetEnabled True 0 (SetBandwidthLimit 8 (BandwidthModule_new 0)) =
              \<lparr>enabled = True, inbound_enabled = True, outbound_enabled = True,
               bandwidth_kbps = 8, last_refill_time = 0, available_bytes = 500,
               max_burst_bytes = 1000, packet_queue = []\<rparr>"
    by (simp add: Bandwidth_SetEnabled_def SetBandwidthLimit_def BandwidthModule_new_def Let_def)
  have reseed: "Bandwidth_SetEnabled True t
                \<lparr>enabled = True, inbound_enabled = True, outbound_enabled = True,
                 bandwidth_kbps = 8, last_refill_time = u, available_bytes = 20,
                 max_burst_bytes = 1000, packet_queue = []\<rparr>
              = \<lparr>enabled = True, inbound_enabled = True, outbound_enabled = True,
                 bandwidth_kbps = 8, last_refill_time = t, available_bytes = 500,
                 max_burst_bytes = 1000, packet_queue = []\<rparr>" for t u
    by (simp add: Bandwidth_SetEnabled_def Let_def)
  have bytes: "total_bytes [?p, ?p, ?p] = 1440"
    by (simp add: total_bytes_def len)
  show ?thesis
    by (simp add: m0 step reseed bytes Let_def)
qed

text \<open>
  Claim C3, amended.  In a state with \<open>0 \<le> available_bytes\<close> and
  \<open>max_burst_bytes = kbps * 125\<close>, at a clock value not before \<open>last_refill_time\<close>:
  after a refill, after \<open>ProcessBatch\<close> or \<open>GetReleasablePackets\<close> of the enabled
  stage, and after \<open>SetEnabled(true)\<close>, \<open>0 \<le> available_bytes \<le> max_burst_bytes\<close> holds;
  \<open>SetEnabled(false)\<close> and the calls on the disabled stage keep the bounds if they held
  before; every operation keeps \<open>max_burst_bytes = kbps * 125\<close>.  \<open>SetBandwidthLimit\<close>
  sets \<open>max_burst_bytes\<close> to \<open>kbps * 125\<close> and leaves \<open>available_bytes\<close> as it was.
  The refill equation is a statement of exact arithmetic: with the \<open>double\<close>s taken as
  real numbers, a refill sets \<open>available_bytes\<close> to
  \<open>min (available_bytes + kbps * 125 * \<Delta>t_seconds) max_burst_bytes\<close>.  The machine
  rounds the product and the sum, so the value it stores can differ from this one in
  the last place.
\<close>

theorem token_bucket_invariant:
  assumes "0 \<le> available_bytes m" and "burst_is_one_second m" and "last_refill_time m \<le> now"
  shows
    "available_bytes (RefillTokenBucket now m) = refilled now m \<and>
     bucket_bounds (RefillTokenBucket now m) \<and>
     burst_is_one_second (RefillTokenBucket now m) \<and>
     (enabled m \<longrightarrow>
        bucket_bounds (snd (Bandwidth_ProcessBatch now m packets)) \<and>
        bucket_bounds (snd (Bandwidth_GetReleasablePackets now m))) \<and>
     burst_is_one_second (snd (Bandwidth_ProcessBatch now m packets)) \<and>
     burst_is_one_second (snd (Bandwidth_GetReleasablePackets now m)) \<and>
     bucket_bounds (Bandwidth_SetEnabled True now m) \<and>
     burst_is_one_second (Bandwidth_SetEnabled e now m) \<and>
     (bucket_bounds m \<longrightarrow>
        bucket_bounds (Bandwidth_SetEnabled False now m) \<and>
        bucket_bounds (snd (Bandwidth_ProcessBatch now m packets)) \<and>
        bucket_bounds (snd (Bandwidth_GetReleasablePackets now m))) \<and>
     burst_is_one_second (SetBandwidthLimit kbps m) \<and>
     available_bytes (SetBandwidthLimit kbps m) = available_bytes m"
proof -
  have B: "0 \<le> max_burst_bytes m" using assms(2) by (simp add: burst_is_one_second_def)
  note rb = refilled_bounds [OF assms(1) B assms(3)]
  note rf = RefillTokenBucket_fields [of now m]
  have c1: "available_bytes (RefillTokenBucket now m) = refilled now m"
    using rf by simp
  have c2: "bucket_bounds (RefillTokenBucket now m)"
    using rf rb by (simp add: bucket_bounds_def)
  have c3: "burst_is_one_second (RefillTokenBucket now m)"
    using rf assms(2) by (simp add: burst_is_one_second_def)
  have pb_on: "bucket_bounds (snd (Bandwidth_ProcessBatch now m packets))" if "enabled m"
    using that rb Bandwidth_ProcessBatch_frame [OF that, of now packets]
      Bandwidth_ProcessBatch_nonneg [OF that, of now packets]
      Bandwidth_ProcessBatch_le [OF that, of now packets]
    by (simp add: bucket_bounds_def)
  have gr_on: "bucket_bounds (snd (Bandwidth_GetReleasablePackets now m))" if "enabled m"
    using that rb Bandwidth_GetReleasablePackets_frame [OF that, of now]
      Bandwidth_GetReleasablePackets_nonneg [OF that, of now]
      Bandwidth_GetReleasablePackets_le [OF that, of now]
    by (simp add: bucket_bounds_def)
  have pb_off: "snd (Bandwidth_ProcessBatch now m packets) = m" if "\<not> enabled m"
    using that by (simp add: Bandwidth_ProcessBatch_def)
  have gr_off: "available_bytes (snd (Bandwidth_GetReleasablePackets now m)) = available_bytes m \<and>
                max_burst_bytes (snd (Bandwidth_GetReleasablePackets now m)) = max_burst_bytes m \<and>
                bandwidth_kbps (snd (Bandwidth_GetReleasablePackets now m)) = bandwidth_kbps m"
    if "\<not> enabled m"
    using that by (simp add: Bandwidth_GetReleasablePackets_def split_beta)
  have c5: "burst_is_one_second (snd (Bandwidth_ProcessBatch now m packets))"
    using assms(2) pb_off Bandwidth_ProcessBatch_frame [of m now packets]
    by (cases "enabled m") (simp_all add: burst_is_one_second_def)
  have c6: "burst_is_one_second (snd (Bandwidth_GetReleasablePackets now m))"
    using assms(2) gr_off Bandwidth_GetReleasablePackets_frame [of m now]
    by (cases "enabled m") (simp_all add: burst_is_one_second_def)
  have c7: "bucket_bounds (Bandwidth_SetEnabled True now m)"
    using B by (simp add: Bandwidth_SetEnabled_def bucket_bounds_def Let_def)
  have c8: "burst_is_one_second (Bandwidth_SetEnabled e now m)"
    using assms(2) by (simp add: Bandwidth_SetEnabled_def burst_is_one_second_def Let_def)
  have c9: "bucket_bounds (Bandwidth_SetEnabled False now m) \<and>
        bucket_bounds (snd (Bandwidth_ProcessBatch now m packets)) \<and>
        bucket_bounds (snd (Bandwidth_GetReleasablePackets now m))" if bb: "bucket_bounds m"
  proof (cases "enabled m")
    case True
    then show ?thesis
      using bb pb_on gr_on by (simp add: Bandwidth_SetEnabled_def bucket_bounds_def Let_def)
  next
    case False
    then show ?thesis
      using bb pb_off gr_off by (simp add: Bandwidth_SetEnabled_def bucket_bounds_def Let_def)
  qed
  have c10: "burst_is_one_second (SetBandwidthLimit kbps m)"
    by (simp add: SetBandwidthLimit_def burst_is_one_second_def)
  have c11: "available_bytes (SetBandwidthLimit kbps m) = available_bytes m"
    by (simp add: SetBandwidthLimit_def)
  from c1 c2 c3 pb_on gr_on c5 c6 c7 c8 c9 c10 c11 show ?thesis by blast
qed

theorem token_bucket_invariant_witness:
  "available_bytes (RefillTokenBucket 500000000 (Bandwidth_SetEnabled True 0 (BandwidthModule_new 0)))
     = 125000 \<and>
   bucket_bounds (RefillTokenBucket 500000000 (Bandwidth_SetEnabled True 0 (BandwidthModule_new 0))) \<and>
   bucket_bounds (snd (Bandwidth_ProcessBatch 500000000
                   (Bandwidth_SetEnabled True 0 (BandwidthModule_new 0)) [test_packet True 1500]))"
proof -
  let ?m = "Bandwidth_SetEnabled True 0 (BandwidthModule_new 0)"
  have v: "available_bytes ?m = 62500" "max_burst_bytes ?m = 125000" "bandwidth_kbps ?m = 1000"
    "last_refill_time ?m = 0" "enabled ?m"
    by (simp_all add: Bandwidth_SetEnabled_def BandwidthModule_new_def Let_def)
  have h1: "0 \<le> available_bytes ?m" by (simp add: v)
  have h2: "burst_is_one_second ?m" by (simp add: burst_is_one_second_def v)
  have h3: "last_refill_time ?m \<le> 500000000" by (simp add: v)
  have r: "refilled 500000000 ?m = 125000"
    by (simp add: refilled_def v)
  from token_bucket_invariant [OF h1 h2 h3, of "[test_packet True 1500]"] show ?thesis
    by (simp add: r v)
qed

text \<open>
  Claim C3 as stated fails for \<open>SetBandwidthLimit\<close>: after the constructor and
  \<open>SetEnabled(true)\<close> the bucket holds 62500 of at most 125000 bytes; lowering the limit
  to 56 kbps makes \<open>max_burst_bytes\<close> 7000 and leaves 62500 bytes available.
\<close>

theorem lowering_limit_breaks_upper_bound:
  "bucket_bounds (Bandwidth_SetEnabled True 0 (BandwidthModule_new 0)) \<and>
   \<not> bucket_bounds (SetBandwidthLimit 56 (Bandwidth_SetEnabled True 0 (BandwidthModule_new 0)))"
  by (simp add: bucket_bounds_def SetBandwidthLimit_def Bandwidth_SetEnabled_def
      BandwidthModule_new_def Let_def)

section \<open>Direction gate of the other stages\<close>

text \<open>
  The five other stages return a packet that fails their direction gate in the same
  call: the loss stage keeps it, the duplicate stage emits it without copies, the jitter
  and latency stages put it among the immediate packets, and the bandwidth stage puts
  it in the output ahead of the queue.
\<close>

lemma PacketLoss_loop_passes:
  "filter (\<lambda>p. \<not> ShouldProcess m (addr p)) (fst (PacketLoss_loop m ps surviving r)) =
     filter (\<lambda>p. \<not> ShouldProcess m (addr p)) (surviving @ ps)"
  by (induction ps arbitrary: surviving r) (simp_all add: split_beta)

lemma Latency_loop_passes:
  "fst (Latency_loop now m ps imm) = imm @ filter (\<lambda>p. \<not> ShouldProcess m (addr p)) ps"
proof (induction ps arbitrary: m imm)
  case Nil
  then show ?case by simp
next
  case (Cons p ps)
  have g: "\<And>q a. ShouldProcess (m\<lparr>delayed_packets := q\<rparr>) a = ShouldProcess m a"
    by (simp add: ShouldProcess_def)
  show ?case by (simp add: Cons.IH Let_def g)
qed

lemma Jitter_loop_passes:
  "fst (Jitter_loop now m ps imm r) = imm @ filter (\<lambda>p. \<not> ShouldProcess m (addr p)) ps"
proof (induction ps arbitrary: m imm r)
  case Nil
  then show ?case by simp
next
  case (Cons p ps)
  have g: "\<And>q a. ShouldProcess (m\<lparr>jitter_delayed_packets := q\<rparr>) a = ShouldProcess m a"
    by (simp add: ShouldProcess_def)
  show ?case by (simp add: Cons.IH Let_def split_beta g)
qed

lemma Bandwidth_drain_prefix: "set out \<subseteq> set (fst (Bandwidth_drain a q out))"
proof (induction q arbitrary: a out)
  case Nil
  then show ?case by simp
next
  case (Cons p q)
  show ?case
    using Cons.IH [of "out @ [p]" "a - real (length (data p))"]
    by (auto simp: split_beta ConsumeTokens_def)
qed

lemma sibling_stages_pass_gate_failing_packet:
  assumes "p \<in> set packets"
  shows "(\<not> ShouldProcess loss (addr p) \<longrightarrow>
            p \<in> set (fst (PacketLoss_ProcessBatch loss packets r))) \<and>
         p \<in> set (fst (Duplicate_ProcessBatch dup packets r)) \<and>
         (\<not> ShouldProcess jit (addr p) \<longrightarrow>
            p \<in> set (fst (Jitter_ProcessBatch now jit packets r))) \<and>
         (\<not> ShouldProcess bw (addr p) \<longrightarrow>
            p \<in> set (fst (Bandwidth_ProcessBatch now bw packets))) \<and>
         (\<not> ShouldProcess lat (addr p) \<longrightarrow>
            p \<in> set (fst (Latency_ProcessBatch now lat packets)))"
proof -
  have l: "p \<in> set (fst (PacketLoss_ProcessBatch loss packets r))"
    if "\<not> ShouldProcess loss (addr p)"
  proof (cases "enabled loss")
    case False
    then show ?thesis using assms by (simp add: PacketLoss_ProcessBatch_def)
  next
    case True
    have "p \<in> set (filter (\<lambda>p. \<not> ShouldProcess loss (addr p)) packets)"
      using assms that by simp
    then have "p \<in> set (filter (\<lambda>p. \<not> ShouldProcess loss (addr p))
                 (fst (PacketLoss_loop loss packets [] r)))"
      by (simp only: PacketLoss_loop_passes append_Nil)
    then show ?thesis using True by (simp add: PacketLoss_ProcessBatch_def)
  qed
  have d: "p \<in> set (fst (Duplicate_ProcessBatch dup packets r))"
  proof -
    have "mset packets \<subseteq># mset (fst (Duplicate_ProcessBatch dup packets r))"
      using Duplicate_loop_superset [of "[]" packets dup r]
      by (simp add: Duplicate_ProcessBatch_def)
    then show ?thesis
      using assms by (meson mset_subset_eqD set_mset_mset in_multiset_in_set)
  qed
  have j: "p \<in> set (fst (Jitter_ProcessBatch now jit packets r))"
    if "\<not> ShouldProcess jit (addr p)"
    using assms that by (simp add: Jitter_ProcessBatch_def Jitter_loop_passes)
  have la: "p \<in> set (fst (Latency_ProcessBatch now lat packets))"
    if "\<not> ShouldProcess lat (addr p)"
    using assms that by (simp add: Latency_ProcessBatch_def Latency_loop_passes)
  have b: "p \<in> set (fst (Bandwidth_ProcessBatch now bw packets))"
    if "\<not> ShouldProcess bw (addr p)"
  proof (cases "enabled bw")
    case False
    then show ?thesis using assms by (simp add: Bandwidth_ProcessBatch_def)
  next
    case True
    let ?m1 = "RefillTokenBucket now bw"
    let ?passed = "filter (\<lambda>p. \<not> ShouldProcess bw (addr p)) packets"
    let ?queue = "packet_queue ?m1 @ filter (\<lambda>p. ShouldProcess bw (addr p)) packets"
    have "p \<in> set ?passed"
      using assms that by simp
    then have "p \<in> set (fst (Bandwidth_drain (available_bytes ?m1) ?queue ?passed))"
      using Bandwidth_drain_prefix [of ?passed "available_bytes ?m1" ?queue] by blast
    then show ?thesis
      using True
      by (simp add: Bandwidth_ProcessBatch_def Let_def split_beta Bandwidth_enqueue_eq
          ShouldProcess_Refill)
  qed
  from l d j la b show ?thesis by blast
qed

end
